theory Spec2Isabelle
  imports Main "HOL-Library.Sublist"
begin


section \<open>Strings of the dashboard\<close>

text \<open>
  A Python \<open>str\<close> is modelled as a \<open>string\<close>; a \<open>char\<close> stands for one code point
  below 256, which covers the ASCII log format of the producer.  The predicates below
  are the character classes of Python restricted to that range.
\<close>

definition code :: "char \<Rightarrow> nat" where
  "code c = of_char c"

text \<open>\<open>str.isspace\<close> on one character, which is also the class \<open>\s\<close> of \<open>re\<close>.\<close>

definition is_space :: "char \<Rightarrow> bool" where
  "is_space c = ((9 \<le> code c \<and> code c \<le> 13) \<or> (28 \<le> code c \<and> code c \<le> 32)
                 \<or> code c = 133 \<or> code c = 160)"

text \<open>The class \<open>\d\<close> of \<open>re\<close>: below 256 the decimal digits are \<open>0\<close> to \<open>9\<close>.\<close>

definition is_digit :: "char \<Rightarrow> bool" where
  "is_digit c = (48 \<le> code c \<and> code c \<le> 57)"

definition newline :: char where
  "newline = CHR 0x0A"

text \<open>\<open>s.lstrip()\<close>, \<open>s.rstrip()\<close> and \<open>s.strip()\<close> without argument.\<close>

definition lstrip :: "string \<Rightarrow> string" where
  "lstrip s = dropWhile is_space s"

definition rstrip :: "string \<Rightarrow> string" where
  "rstrip s = rev (dropWhile is_space (rev s))"

definition strip :: "string \<Rightarrow> string" where
  "strip s = rstrip (lstrip s)"

text \<open>\<open>s.rstrip("\n")\<close>: only trailing newline characters go.\<close>

definition rstrip_newline :: "string \<Rightarrow> string" where
  "rstrip_newline s = rev (dropWhile (\<lambda>c. c = newline) (rev s))"

text \<open>\<open>sub in s\<close> for strings.\<close>

fun py_in :: "string \<Rightarrow> string \<Rightarrow> bool" where
  "py_in sub [] = (sub = [])"
| "py_in sub (x # xs) = (prefix sub (x # xs) \<or> py_in sub xs)"

datatype py_error = ValueError | IndexError | TypeError | AttributeError

text \<open>
  \<open>s.partition(sep)\<close> for the first occurrence of \<open>sep\<close>, scanning from the left:
  the text before it and the text after it, or nothing when \<open>sep\<close> does not occur.
\<close>

fun find_first :: "string \<Rightarrow> string \<Rightarrow> (string \<times> string) option" where
  "find_first sep [] = (if sep = [] then Some ([], []) else None)"
| "find_first sep (x # xs) =
     (if prefix sep (x # xs) then Some ([], drop (length sep) (x # xs))
      else (case find_first sep xs of
              None \<Rightarrow> None
            | Some (a, b) \<Rightarrow> Some (x # a, b)))"

text \<open>\<open>s.split(sep, 1)\<close>: an empty separator is a \<open>ValueError\<close>.\<close>

definition split1 :: "string \<Rightarrow> string \<Rightarrow> py_error + string list" where
  "split1 sep s =
     (if sep = [] then Inl ValueError
      else (case find_first sep s of
              None \<Rightarrow> Inr [s]
            | Some (a, b) \<Rightarrow> Inr [a, b]))"

text \<open>\<open>xs[i]\<close> for a non-negative index.\<close>

definition index :: "'a list \<Rightarrow> nat \<Rightarrow> py_error + 'a" where
  "index xs i = (if i < length xs then Inr (xs ! i) else Inl IndexError)"

text \<open>
  \<open>int(s)\<close> in base ten: surrounding whitespace is ignored, one sign is allowed, and
  the digits may be grouped by single underscores.  Anything else is a \<open>ValueError\<close>.
  The interpreter's configurable limit on the number of digits is outside the model.
\<close>

fun digits_ok :: "string \<Rightarrow> bool" where
  "digits_ok [] = False"
| "digits_ok [c] = is_digit c"
| "digits_ok (c # d # s) =
     (is_digit c \<and> (if d = CHR ''_'' then digits_ok s else digits_ok (d # s)))"

definition digit_val :: "char \<Rightarrow> int" where
  "digit_val c = int (code c) - 48"

definition digits_value :: "string \<Rightarrow> int" where
  "digits_value s = foldl (\<lambda>acc c. 10 * acc + digit_val c) 0 (filter is_digit s)"

definition py_int :: "string \<Rightarrow> py_error + int" where
  "py_int s =
     (case strip s of
        [] \<Rightarrow> Inl ValueError
      | c # r \<Rightarrow>
          if c = CHR ''-'' then (if digits_ok r then Inr (- digits_value r) else Inl ValueError)
          else if c = CHR ''+'' then (if digits_ok r then Inr (digits_value r) else Inl ValueError)
          else (if digits_ok (c # r) then Inr (digits_value (c # r)) else Inl ValueError))"

section \<open>The regular expressions\<close>

text \<open>
  The two patterns of the source use literals, character classes, the greedy
  quantifiers \<open>*\<close>, \<open>+\<close> and \<open>?\<close>, the lazy \<open>+?\<close>, named groups and the anchors
  \<open>^\<close> and \<open>$\<close>, each quantifier on a single character class.  A pattern is a list
  of items; the matcher is the backtracking matcher of \<open>re\<close>: alternatives are tried
  in priority order and the first complete match wins.
\<close>

datatype citem = Ch char | Range char char | WhiteSpace | Decimal

datatype cset = Dot | Cls "citem list" | NotCls "citem list"

datatype item =
    Lit string
  | Star cset
  | Plus cset
  | PlusLazy cset
  | Opt cset
  | Open string
  | Close string
  | Bol
  | Eol

type_synonym regex = "item list"

fun citem_match :: "citem \<Rightarrow> char \<Rightarrow> bool" where
  "citem_match (Ch a) c = (c = a)"
| "citem_match (Range a b) c = (code a \<le> code c \<and> code c \<le> code b)"
| "citem_match WhiteSpace c = is_space c"
| "citem_match Decimal c = is_digit c"

fun cmatch :: "cset \<Rightarrow> char \<Rightarrow> bool" where
  "cmatch Dot c = (c \<noteq> newline)"
| "cmatch (Cls is) c = (\<exists>i \<in> set is. citem_match i c)"
| "cmatch (NotCls is) c = (\<not> (\<exists>i \<in> set is. citem_match i c))"

text \<open>
  A successful match is the trace of what it consumed: the characters, with a mark
  where a group opens and where it closes.
\<close>

datatype tok = C char | GOpen string | GClose string

text \<open>
  \<open>rmatch re b s\<close> matches \<open>re\<close> at the head of \<open>s\<close>; \<open>b\<close> tells whether the
  head of \<open>s\<close> is the beginning of the subject string.
\<close>

fun rmatch :: "regex \<Rightarrow> bool \<Rightarrow> string \<Rightarrow> tok list option" where
  "rmatch [] b s = Some []"
| "rmatch (Lit l # re) b s =
     (if prefix l s
      then map_option (\<lambda>t. map C l @ t) (rmatch re (b \<and> l = []) (drop (length l) s))
      else None)"
| "rmatch (Star cs # re) b [] = rmatch re b []"
| "rmatch (Star cs # re) b (x # xs) =
     (if cmatch cs x
      then (case rmatch (Star cs # re) False xs of
              Some t \<Rightarrow> Some (C x # t)
            | None \<Rightarrow> rmatch re b (x # xs))
      else rmatch re b (x # xs))"
| "rmatch (Plus cs # re) b [] = None"
| "rmatch (Plus cs # re) b (x # xs) =
     (if cmatch cs x then map_option (\<lambda>t. C x # t) (rmatch (Star cs # re) False xs) else None)"
| "rmatch (PlusLazy cs # re) b [] = None"
| "rmatch (PlusLazy cs # re) b (x # xs) =
     (if cmatch cs x
      then (case rmatch re False xs of
              Some t \<Rightarrow> Some (C x # t)
            | None \<Rightarrow> map_option (\<lambda>t. C x # t) (rmatch (PlusLazy cs # re) False xs))
      else None)"
| "rmatch (Opt cs # re) b [] = rmatch re b []"
| "rmatch (Opt cs # re) b (x # xs) =
     (if cmatch cs x
      then (case rmatch re False xs of
              Some t \<Rightarrow> Some (C x # t)
            | None \<Rightarrow> rmatch re b (x # xs))
      else rmatch re b (x # xs))"
| "rmatch (Open n # re) b s = map_option (\<lambda>t. GOpen n # t) (rmatch re b s)"
| "rmatch (Close n # re) b s = map_option (\<lambda>t. GClose n # t) (rmatch re b s)"
| "rmatch (Bol # re) b s = (if b then rmatch re b s else None)"
| "rmatch (Eol # re) b s = (if s = [] \<or> s = [newline] then rmatch re b s else None)"

text \<open>\<open>pattern.match(s)\<close>: a match at the beginning of \<open>s\<close>.\<close>

definition re_match :: "regex \<Rightarrow> string \<Rightarrow> tok list option" where
  "re_match re s = rmatch re True s"

text \<open>\<open>pattern.search(s)\<close>: the match at the leftmost position that has one.\<close>

fun search_from :: "regex \<Rightarrow> bool \<Rightarrow> string \<Rightarrow> tok list option" where
  "search_from re b [] = rmatch re b []"
| "search_from re b (x # xs) =
     (case rmatch re b (x # xs) of
        Some t \<Rightarrow> Some t
      | None \<Rightarrow> search_from re False xs)"

definition re_search :: "regex \<Rightarrow> string \<Rightarrow> tok list option" where
  "re_search re s = search_from re True s"

text \<open>
  \<open>m.group(name)\<close>: the text consumed between the marks of the group, or \<open>None\<close>
  when the group took no part in the match.
\<close>

fun grab :: "string \<Rightarrow> tok list \<Rightarrow> string" where
  "grab n [] = []"
| "grab n (C c # t) = c # grab n t"
| "grab n (GOpen m # t) = grab n t"
| "grab n (GClose m # t) = (if m = n then [] else grab n t)"

fun group :: "tok list \<Rightarrow> string \<Rightarrow> string option" where
  "group [] n = None"
| "group (C c # t) n = group t n"
| "group (GOpen m # t) n = (if m = n then Some (grab n t) else group t n)"
| "group (GClose m # t) n = group t n"

text \<open>
  The tag grammar (\<open>re.VERBOSE\<close>: the blanks and line breaks of the pattern are
  not part of it):
  \<^verbatim>\<open>^\[(?P<ts>[^\]]+)\]\s*-\s*\[(?P<tag>ANTI_TAMPERING_[A-Z_]+)\]\s*(?P<msg>.*)$\<close>
\<close>

definition ANTI_TAMPERING_WARN_RE :: regex where
  "ANTI_TAMPERING_WARN_RE =
     [Bol, Lit ''['', Open ''ts'', Plus (NotCls [Ch CHR '']'']), Close ''ts'', Lit '']'',
      Star (Cls [WhiteSpace]), Lit ''-'', Star (Cls [WhiteSpace]),
      Lit ''['', Open ''tag'', Lit ''ANTI_TAMPERING_'',
      Plus (Cls [Range CHR ''A'' CHR ''Z'', Ch CHR ''_'']), Close ''tag'', Lit '']'',
      Star (Cls [WhiteSpace]),
      Open ''msg'', Star Dot, Close ''msg'', Eol]"

text \<open>
  The hash-mismatch shape (\<open>re.VERBOSE\<close>; an escaped blank is a blank):
  \<^verbatim>\<open>Hash\ mismatch\ for\ file\ (?P<path>.+?)\s*\<close>
  \<^verbatim>\<open>\(size=(?P<size>\d+),\s*verify_fd=(?P<verify_fd>-?\d+)\);\s*\<close>
  \<^verbatim>\<open>Stored\ hash:\s*(?P<stored>[0-9a-fA-F]+);\s*\<close>
  \<^verbatim>\<open>Computed\ hash:\s*(?P<computed>[0-9a-fA-F]+)\<close>
\<close>

definition hex_class :: cset where
  "hex_class = Cls [Range CHR ''0'' CHR ''9'', Range CHR ''a'' CHR ''f'', Range CHR ''A'' CHR ''F'']"

definition MISMATCH_RE :: regex where
  "MISMATCH_RE =
     [Lit ''Hash mismatch for file '', Open ''path'', PlusLazy Dot, Close ''path'',
      Star (Cls [WhiteSpace]),
      Lit ''(size='', Open ''size'', Plus (Cls [Decimal]), Close ''size'', Lit '','',
      Star (Cls [WhiteSpace]),
      Lit ''verify_fd='', Open ''verify_fd'', Opt (Cls [Ch CHR ''-'']), Plus (Cls [Decimal]),
      Close ''verify_fd'', Lit '');'', Star (Cls [WhiteSpace]),
      Lit ''Stored hash:'', Star (Cls [WhiteSpace]),
      Open ''stored'', Plus hex_class, Close ''stored'', Lit '';'',
      Star (Cls [WhiteSpace]),
      Lit ''Computed hash:'', Star (Cls [WhiteSpace]),
      Open ''computed'', Plus hex_class, Close ''computed'']"

section \<open>The line parser\<close>

record AntiTamperingEvent =
  ts :: string
  tag :: string
  severity :: string
  message :: string
  path :: "string option"
  hash_path :: "string option"
  size_field :: "int option"
  verify_fd :: "int option"
  stored :: "string option"
  computed :: "string option"
  raw :: "string option"

text \<open>
  The constructor of the dataclass with its four positional fields; the other
  fields (\<open>size\<close> of the source is \<open>size_field\<close> here) default to \<open>None\<close>.
\<close>

definition event :: "string \<Rightarrow> string \<Rightarrow> string \<Rightarrow> string \<Rightarrow> AntiTamperingEvent" where
  "event t g sev msg =
     \<lparr>ts = t, tag = g, severity = sev, message = msg, path = None, hash_path = None,
      size_field = None, verify_fd = None, stored = None, computed = None, raw = None\<rparr>"

text \<open>Sequencing of statements that may raise: the first exception ends the block.\<close>

definition then_do :: "py_error + 'a \<Rightarrow> ('a \<Rightarrow> py_error + 'b) \<Rightarrow> py_error + 'b" where
  "then_do r f = (case r of Inl e \<Rightarrow> Inl e | Inr v \<Rightarrow> f v)"

text \<open>\<open>a, b = xs\<close>: unpacking anything but two elements is a \<open>ValueError\<close>.\<close>

fun unpack2 :: "'a list \<Rightarrow> py_error + ('a \<times> 'a)" where
  "unpack2 [a, b] = Inr (a, b)"
| "unpack2 xs = Inl ValueError"

text \<open>\<open>int(m.group(name))\<close>: \<open>int(None)\<close> is a \<open>TypeError\<close>.\<close>

fun int_of_group :: "string option \<Rightarrow> py_error + int" where
  "int_of_group None = Inl TypeError"
| "int_of_group (Some s) = py_int s"

text \<open>The event of the hash-mismatch shape, built from the match \<open>mm\<close> (lines 110 to 123).\<close>

definition mismatch_event ::
  "string \<Rightarrow> string \<Rightarrow> string \<Rightarrow> string \<Rightarrow> tok list \<Rightarrow> py_error + AntiTamperingEvent" where
  "mismatch_event t g msg line mm =
     then_do (int_of_group (group mm ''size'')) (\<lambda>sz.
     then_do (int_of_group (group mm ''verify_fd'')) (\<lambda>fd.
       Inr ((event t g ''danger'' msg)
              \<lparr>path := group mm ''path'', size_field := Some sz, verify_fd := Some fd,
               stored := group mm ''stored'', computed := group mm ''computed'',
               raw := Some (rstrip_newline line)\<rparr>)))"

text \<open>
  The body of the first \<open>try\<close> (lines 129 to 131): the hash path as split off, and
  the file path, cut at the first period and stripped.
\<close>

definition missing_hash_fields :: "string \<Rightarrow> py_error + (string \<times> string)" where
  "missing_hash_fields msg =
     then_do (split1 ''Hash file '' msg) (\<lambda>l.
     then_do (index l 1) (\<lambda>part.
     then_do (split1 '' does not exist for file '' part) (\<lambda>l2.
     then_do (unpack2 l2) (\<lambda>(hp, rest).
     then_do (split1 ''.'' rest) (\<lambda>l3.
     then_do (index l3 0) (\<lambda>fp.
       Inr (hp, strip fp)))))))"

text \<open>The body of the second \<open>try\<close> (line 147).\<close>

definition open_fd_path :: "string \<Rightarrow> py_error + string" where
  "open_fd_path msg =
     then_do (split1 ''Failed to open verification fd for file '' msg) (\<lambda>l.
     then_do (index l 1) (\<lambda>p. Inr (strip p)))"

text \<open>The last \<open>return\<close> (lines 159 to 161).\<close>

definition generic_event :: "string \<Rightarrow> string \<Rightarrow> string \<Rightarrow> string \<Rightarrow> string \<Rightarrow> AntiTamperingEvent" where
  "generic_event t g sev msg line = (event t g sev msg)\<lparr>raw := Some (rstrip_newline line)\<rparr>"

text \<open>Lines 144 to 161: the open-descriptor-failure shape, then the generic event.\<close>

definition open_fd_or_generic :: "string \<Rightarrow> string \<Rightarrow> string \<Rightarrow> string \<Rightarrow> string \<Rightarrow> AntiTamperingEvent" where
  "open_fd_or_generic t g sev msg line =
     (if py_in ''Failed to open verification fd for file '' msg then
        (case open_fd_path msg of
           Inr fp \<Rightarrow> (event t g sev msg)\<lparr>path := Some fp, raw := Some (rstrip_newline line)\<rparr>
         | Inl e \<Rightarrow> generic_event t g sev msg line)
      else generic_event t g sev msg line)"

text \<open>Lines 125 to 161: the missing-hash-file shape, then the rest.\<close>

definition missing_hash_or_later :: "string \<Rightarrow> string \<Rightarrow> string \<Rightarrow> string \<Rightarrow> string \<Rightarrow> AntiTamperingEvent" where
  "missing_hash_or_later t g sev msg line =
     (if py_in ''Hash file '' msg \<and> py_in '' does not exist for file '' msg then
        (case missing_hash_fields msg of
           Inr (hp, fp) \<Rightarrow>
             (event t g sev msg)\<lparr>path := Some fp, hash_path := Some (strip hp),
                                  raw := Some (rstrip_newline line)\<rparr>
         | Inl e \<Rightarrow> open_fd_or_generic t g sev msg line)
      else open_fd_or_generic t g sev msg line)"

text \<open>
  \<open>parse_line\<close>.  \<open>Inl\<close> is an exception leaving the function, \<open>Inr None\<close> the
  line that is filtered out.  A group that took no part in the match would give
  \<open>None\<close>: for \<open>msg\<close> the call of \<open>strip\<close> then fails, and for \<open>ts\<close> and \<open>tag\<close>
  the model reports the ill-typed field as a \<open>TypeError\<close>.
\<close>

definition parse_line :: "string \<Rightarrow> py_error + AntiTamperingEvent option" where
  "parse_line line =
     (case re_match ANTI_TAMPERING_WARN_RE (strip line) of
        None \<Rightarrow> Inr None
      | Some m \<Rightarrow>
          (case group m ''ts'' of None \<Rightarrow> Inl TypeError | Some t \<Rightarrow>
          (case group m ''tag'' of None \<Rightarrow> Inl TypeError | Some g \<Rightarrow>
          (case group m ''msg'' of None \<Rightarrow> Inl AttributeError | Some msg0 \<Rightarrow>
             (let msg = strip msg0; sev = ''warning'' in
              (case re_search MISMATCH_RE msg of
                 Some mm \<Rightarrow> then_do (mismatch_event t g msg line mm) (\<lambda>ev. Inr (Some ev))
               | None \<Rightarrow> Inr (Some (missing_hash_or_later t g sev msg line))))))))"

section \<open>The event bus\<close>

text \<open>
  A \<open>queue.Queue\<close> as one thread sees it: the queued payloads, oldest first, and
  \<open>maxsize\<close> (no bound when it is not positive).  \<open>put_nowait\<close> raises \<open>Full\<close> and
  \<open>get_nowait\<close> raises \<open>Empty\<close>.
\<close>

record py_queue =
  items :: "string list"
  maxsize :: int

datatype queue_error = Full | Empty

definition full :: "py_queue \<Rightarrow> bool" where
  "full q = (0 < maxsize q \<and> maxsize q \<le> int (length (items q)))"

definition put_nowait :: "py_queue \<Rightarrow> string \<Rightarrow> queue_error + py_queue" where
  "put_nowait q x = (if full q then Inl Full else Inr (q\<lparr>items := items q @ [x]\<rparr>))"

definition get_nowait :: "py_queue \<Rightarrow> queue_error + (string \<times> py_queue)" where
  "get_nowait q =
     (case items q of
        [] \<Rightarrow> Inl Empty
      | x # xs \<Rightarrow> Inr (x, q\<lparr>items := xs\<rparr>))"

text \<open>
  The bus holds a set of queue objects.  An object is a handle into a store of queues;
  \<open>fresh\<close> is the next handle that \<open>subscribe\<close> allocates.  The lock only orders the
  accesses of the threads; the model is the bus as one thread runs an operation to its end.
\<close>

type_synonym handle = nat

record EventBus =
  subscribers :: "handle set"
  store :: "handle \<Rightarrow> py_queue"
  fresh :: handle

definition subscribe :: "EventBus \<Rightarrow> handle \<times> EventBus" where
  "subscribe bus =
     (fresh bus,
      bus\<lparr>subscribers := insert (fresh bus) (subscribers bus),
          store := (store bus)(fresh bus := \<lparr>items = [], maxsize = 500\<rparr>),
          fresh := Suc (fresh bus)\<rparr>)"

text \<open>\<open>set.discard\<close> removes the element when it is there and does nothing otherwise.\<close>

definition unsubscribe :: "EventBus \<Rightarrow> handle \<Rightarrow> EventBus" where
  "unsubscribe bus q = bus\<lparr>subscribers := subscribers bus - {q}\<rparr>"

text \<open>
  The body of the loop of \<open>publish\<close> for one queue (lines 86 to 94).  Only \<open>Full\<close>
  is caught by the outer handler; the inner handler catches everything.
\<close>

definition publish_one :: "py_queue \<Rightarrow> string \<Rightarrow> queue_error + py_queue" where
  "publish_one q payload =
     (case put_nowait q payload of
        Inr q' \<Rightarrow> Inr q'
      | Inl Empty \<Rightarrow> Inl Empty
      | Inl Full \<Rightarrow>
          (case get_nowait q of
             Inl e \<Rightarrow> Inr q
           | Inr (old, q1) \<Rightarrow>
               (case put_nowait q1 payload of
                  Inl e \<Rightarrow> Inr q1
                | Inr q2 \<Rightarrow> Inr q2)))"

text \<open>The loop over the snapshot \<open>subs\<close>; an exception that escapes ends it.\<close>

fun publish_to ::
  "handle list \<Rightarrow> string \<Rightarrow> (handle \<Rightarrow> py_queue) \<Rightarrow> queue_error + (handle \<Rightarrow> py_queue)" where
  "publish_to [] payload st = Inr st"
| "publish_to (q # subs) payload st =
     (case publish_one (st q) payload of
        Inl e \<Rightarrow> Inl e
      | Inr q' \<Rightarrow> publish_to subs payload (st(q := q')))"

text \<open>
  \<open>publish\<close>: \<open>list(self._subscribers)\<close> enumerates the set in some order; the model
  takes the increasing one.
\<close>

definition publish :: "EventBus \<Rightarrow> string \<Rightarrow> queue_error + EventBus" where
  "publish bus payload =
     (case publish_to (sorted_list_of_set (subscribers bus)) payload (store bus) of
        Inl e \<Rightarrow> Inl e
      | Inr st \<Rightarrow> Inr (bus\<lparr>store := st\<rparr>))"

section \<open>The file tailer\<close>











section \<open>Specifications\<close>

text \<open>
  The matches a pattern admits, whatever their priority: the text \<open>s\<close> begins with
  a word of the pattern, consumed with the trace \<open>t\<close>.  The matcher returns one of
  them, and finds one whenever there is one.
\<close>

fun sem :: "regex \<Rightarrow> bool \<Rightarrow> string \<Rightarrow> tok list \<Rightarrow> bool" where
  "sem [] b s t = (t = [])"
| "sem (Lit l # re) b s t =
     (\<exists>r t'. s = l @ r \<and> sem re (b \<and> l = []) r t' \<and> t = map C l @ t')"
| "sem (Star cs # re) b s t =
     (\<exists>w r t'. s = w @ r \<and> (\<forall>c \<in> set w. cmatch cs c) \<and> sem re (b \<and> w = []) r t' \<and> t = map C w @ t')"
| "sem (Plus cs # re) b s t =
     (\<exists>w r t'. s = w @ r \<and> w \<noteq> [] \<and> (\<forall>c \<in> set w. cmatch cs c) \<and> sem re False r t' \<and> t = map C w @ t')"
| "sem (PlusLazy cs # re) b s t =
     (\<exists>w r t'. s = w @ r \<and> w \<noteq> [] \<and> (\<forall>c \<in> set w. cmatch cs c) \<and> sem re False r t' \<and> t = map C w @ t')"
| "sem (Opt cs # re) b s t =
     (\<exists>w r t'. s = w @ r \<and> length w \<le> 1 \<and> (\<forall>c \<in> set w. cmatch cs c) \<and> sem re (b \<and> w = []) r t' \<and> t = map C w @ t')"
| "sem (Open n # re) b s t = (\<exists>t'. sem re b s t' \<and> t = GOpen n # t')"
| "sem (Close n # re) b s t = (\<exists>t'. sem re b s t' \<and> t = GClose n # t')"
| "sem (Bol # re) b s t = (b \<and> sem re b s t)"
| "sem (Eol # re) b s t = ((s = [] \<or> s = [newline]) \<and> sem re b s t)"

text \<open>
  The tag grammar in the words of the specification: a bracketed timestamp, the
  separator \<open>-\<close>, a bracketed tag made of the family prefix and capital letters or
  underscores, then the message, which stays on the line.
\<close>

definition is_upper :: "char \<Rightarrow> bool" where
  "is_upper c = (65 \<le> code c \<and> code c \<le> 90)"

definition tag_grammar :: "string \<Rightarrow> bool" where
  "tag_grammar s =
     (\<exists>tv w1 w2 suf w3 mv.
        s = ''['' @ tv @ '']'' @ w1 @ ''-'' @ w2 @ ''['' @ ''ANTI_TAMPERING_'' @ suf @ '']'' @ w3 @ mv
        \<and> tv \<noteq> [] \<and> CHR '']'' \<notin> set tv
        \<and> (\<forall>c\<in>set w1. is_space c) \<and> (\<forall>c\<in>set w2. is_space c)
        \<and> suf \<noteq> [] \<and> (\<forall>c\<in>set suf. is_upper c \<or> c = CHR ''_'')
        \<and> (\<forall>c\<in>set w3. is_space c) \<and> newline \<notin> set mv)"

text \<open>
  The timestamp, the tag and the stripped message that \<open>parse_line\<close> reads off a line
  (lines 98 to 104); nothing when the line does not match the tag grammar.
\<close>

definition header_of :: "string \<Rightarrow> (string \<times> string \<times> string) option" where
  "header_of line =
     (case re_match ANTI_TAMPERING_WARN_RE (strip line) of
        None \<Rightarrow> None
      | Some m \<Rightarrow>
          (case group m ''ts'' of None \<Rightarrow> None | Some t \<Rightarrow>
          (case group m ''tag'' of None \<Rightarrow> None | Some g \<Rightarrow>
          (case group m ''msg'' of None \<Rightarrow> None | Some msg0 \<Rightarrow> Some (t, g, strip msg0)))))"

text \<open>
  The shapes of a message in the words of the specification.  The hash-mismatch shape
  is the pattern found somewhere in the message; the missing-hash-file shape is the
  marker \<open>Hash file\<close> followed, later in the message, by the marker
  \<open>does not exist for file\<close>; the open-descriptor-failure shape is its marker.
\<close>

definition mismatch_shape :: "string \<Rightarrow> bool" where
  "mismatch_shape msg = (re_search MISMATCH_RE msg \<noteq> None)"

fun contains_then :: "string \<Rightarrow> string \<Rightarrow> string \<Rightarrow> bool" where
  "contains_then m1 m2 [] = (m1 = [] \<and> m2 = [])"
| "contains_then m1 m2 (x # xs) =
     ((prefix m1 (x # xs) \<and> py_in m2 (drop (length m1) (x # xs))) \<or> contains_then m1 m2 xs)"

definition missing_hash_shape :: "string \<Rightarrow> bool" where
  "missing_hash_shape msg = contains_then ''Hash file '' '' does not exist for file '' msg"

definition open_fd_shape :: "string \<Rightarrow> bool" where
  "open_fd_shape msg = py_in ''Failed to open verification fd for file '' msg"

text \<open>
  What \<open>publish\<close> leaves in one subscriber's queue, in the words of the
  specification: the payload is appended when there is room; on a full queue the oldest
  item goes, and the payload is appended if that made room and dropped otherwise.
\<close>

definition deliver :: "py_queue \<Rightarrow> string \<Rightarrow> py_queue" where
  "deliver q payload =
     (if \<not> full q then q\<lparr>items := items q @ [payload]\<rparr>
      else if full (q\<lparr>items := tl (items q)\<rparr>) then q\<lparr>items := tl (items q)\<rparr>
      else q\<lparr>items := tl (items q) @ [payload]\<rparr>)"

text \<open>Publishing a sequence of payloads, one after the other; the first exception ends it.\<close>

fun publish_all :: "EventBus \<Rightarrow> string list \<Rightarrow> queue_error + EventBus" where
  "publish_all bus [] = Inr bus"
| "publish_all bus (p # ps) =
     (case publish bus p of
        Inl e \<Rightarrow> Inl e
      | Inr bus' \<Rightarrow> publish_all bus' ps)"

section \<open>The matcher and the patterns\<close>

lemma sem_StarI:
  "s = w @ r \<Longrightarrow> \<forall>c \<in> set w. cmatch cs c \<Longrightarrow> sem re (b \<and> w = []) r t' \<Longrightarrow> t = map C w @ t'
   \<Longrightarrow> sem (Star cs # re) b s t"
  apply (simp only: sem.simps)
  apply (rule exI[of _ w], rule exI[of _ r], rule exI[of _ t'])
  apply simp
  done

lemma sem_PlusI:
  "s = w @ r \<Longrightarrow> w \<noteq> [] \<Longrightarrow> \<forall>c \<in> set w. cmatch cs c \<Longrightarrow> sem re False r t' \<Longrightarrow> t = map C w @ t'
   \<Longrightarrow> sem (Plus cs # re) b s t"
  apply (simp only: sem.simps)
  apply (rule exI[of _ w], rule exI[of _ r], rule exI[of _ t'])
  apply simp
  done

lemma sem_PlusLazyI:
  "s = w @ r \<Longrightarrow> w \<noteq> [] \<Longrightarrow> \<forall>c \<in> set w. cmatch cs c \<Longrightarrow> sem re False r t' \<Longrightarrow> t = map C w @ t'
   \<Longrightarrow> sem (PlusLazy cs # re) b s t"
  apply (simp only: sem.simps)
  apply (rule exI[of _ w], rule exI[of _ r], rule exI[of _ t'])
  apply simp
  done

lemma sem_OptI:
  "s = w @ r \<Longrightarrow> length w \<le> 1 \<Longrightarrow> \<forall>c \<in> set w. cmatch cs c \<Longrightarrow> sem re (b \<and> w = []) r t' \<Longrightarrow> t = map C w @ t'
   \<Longrightarrow> sem (Opt cs # re) b s t"
  apply (simp only: sem.simps)
  apply (rule exI[of _ w], rule exI[of _ r], rule exI[of _ t'])
  apply simp
  done

lemma sem_StarE:
  assumes "sem (Star cs # re) b s t"
  obtains w r t' where "s = w @ r" "\<forall>c \<in> set w. cmatch cs c" "sem re (b \<and> w = []) r t'" "t = map C w @ t'"
  using assms by (simp only: sem.simps) blast

lemma sem_PlusLazyE:
  assumes "sem (PlusLazy cs # re) b s t"
  obtains w r t' where "s = w @ r" "w \<noteq> []" "\<forall>c \<in> set w. cmatch cs c" "sem re False r t'" "t = map C w @ t'"
  using assms by (simp only: sem.simps) blast

lemma rmatch_sound: "rmatch re b s = Some t \<Longrightarrow> sem re b s t"
proof (induction re b s arbitrary: t rule: rmatch.induct)
  case (1 b s)
  then show ?case by simp
next
  case (2 l re b s)
  from 2(2) have p: "prefix l s" by (simp split: if_splits)
  then obtain r where r: "s = l @ r" by (auto simp: prefix_def)
  with 2(2) obtain t' where t': "rmatch re (b \<and> l = []) r = Some t'" "t = map C l @ t'"
    by auto
  with 2(1) p r have "sem re (b \<and> l = []) r t'" by simp
  with r t' show ?case by (simp only: sem.simps) blast
next
  case (3 cs re b)
  then have "sem re (b \<and> ([]::string) = []) [] t" by simp
  then show ?case by (intro sem_StarI[where w = "[]" and r = "[]" and t' = t]) simp_all
next
  case (4 cs re b x xs)
  show ?case
  proof (cases "cmatch cs x")
    case True
    show ?thesis
    proof (cases "rmatch (Star cs # re) False xs")
      case (Some t1)
      with True 4(4) have t: "t = C x # t1" by simp
      from 4(1)[OF True Some] obtain w r t' where
        w: "xs = w @ r" "\<forall>c \<in> set w. cmatch cs c" "sem re (False \<and> w = []) r t'" "t1 = map C w @ t'"
        by (rule sem_StarE)
      show ?thesis
        by (rule sem_StarI[where w = "x # w" and r = r and t' = t']) (use w t True in simp_all)
    next
      case None
      with True 4(4) have "rmatch re b (x # xs) = Some t" by simp
      from 4(2)[OF True None this] show ?thesis
        by (intro sem_StarI[where w = "[]" and r = "x # xs" and t' = t]) simp_all
    qed
  next
    case False
    with 4(4) have "rmatch re b (x # xs) = Some t" by simp
    from 4(3)[OF False this] show ?thesis
      by (intro sem_StarI[where w = "[]" and r = "x # xs" and t' = t]) simp_all
  qed
next
  case (5 cs re b)
  then show ?case by simp
next
  case (6 cs re b x xs)
  from 6(2) have c: "cmatch cs x" by (simp split: if_splits)
  with 6(2) obtain t1 where t1: "rmatch (Star cs # re) False xs = Some t1" and t: "t = C x # t1"
    by auto
  from 6(1)[OF c t1] obtain w r t' where
    w: "xs = w @ r" "\<forall>c \<in> set w. cmatch cs c" "sem re (False \<and> w = []) r t'" "t1 = map C w @ t'"
    by (rule sem_StarE)
  show ?case
    by (rule sem_PlusI[where w = "x # w" and r = r and t' = t']) (use w t c in simp_all)
next
  case (7 cs re b)
  then show ?case by simp
next
  case (8 cs re b x xs)
  from 8(3) have c: "cmatch cs x" by (simp split: if_splits)
  show ?case
  proof (cases "rmatch re False xs")
    case (Some t1)
    with 8(3) c have t: "t = C x # t1" by simp
    from 8(1)[OF c Some] have "sem re False xs t1" .
    then show ?thesis
      by (intro sem_PlusLazyI[where w = "[x]" and r = xs and t' = t1]) (use c t in simp_all)
  next
    case None
    with 8(3) c obtain t1 where t1: "rmatch (PlusLazy cs # re) False xs = Some t1" and t: "t = C x # t1"
      by auto
    from 8(2)[OF c None t1] obtain w r t' where
      w: "xs = w @ r" "w \<noteq> []" "\<forall>c \<in> set w. cmatch cs c" "sem re False r t'" "t1 = map C w @ t'"
      by (rule sem_PlusLazyE)
    show ?thesis
      by (rule sem_PlusLazyI[where w = "x # w" and r = r and t' = t']) (use w t c in simp_all)
  qed
next
  case (9 cs re b)
  then have "sem re (b \<and> ([]::string) = []) [] t" by simp
  then show ?case by (intro sem_OptI[where w = "[]" and r = "[]" and t' = t]) simp_all
next
  case (10 cs re b x xs)
  show ?case
  proof (cases "cmatch cs x")
    case True
    show ?thesis
    proof (cases "rmatch re False xs")
      case (Some t1)
      with True 10(4) have t: "t = C x # t1" by simp
      from 10(1)[OF True Some] have "sem re False xs t1" .
      then show ?thesis
        by (intro sem_OptI[where w = "[x]" and r = xs and t' = t1]) (use True t in simp_all)
    next
      case None
      with True 10(4) have "rmatch re b (x # xs) = Some t" by simp
      from 10(2)[OF True None this] show ?thesis
        by (intro sem_OptI[where w = "[]" and r = "x # xs" and t' = t]) simp_all
    qed
  next
    case False
    with 10(4) have "rmatch re b (x # xs) = Some t" by simp
    from 10(3)[OF False this] show ?thesis
      by (intro sem_OptI[where w = "[]" and r = "x # xs" and t' = t]) simp_all
  qed
next
  case (11 n re b s)
  then show ?case by auto
next
  case (12 n re b s)
  then show ?case by auto
next
  case (13 re b s)
  then show ?case by (auto split: if_splits)
next
  case (14 re b s)
  then show ?case by (auto split: if_splits)
qed


lemma sem_PlusE:
  assumes "sem (Plus cs # re) b s t"
  obtains w r t' where "s = w @ r" "w \<noteq> []" "\<forall>c \<in> set w. cmatch cs c" "sem re False r t'" "t = map C w @ t'"
  using assms by (simp only: sem.simps) blast

lemma sem_OptE:
  assumes "sem (Opt cs # re) b s t"
  obtains w r t' where "s = w @ r" "length w \<le> 1" "\<forall>c \<in> set w. cmatch cs c" "sem re (b \<and> w = []) r t'" "t = map C w @ t'"
  using assms by (simp only: sem.simps) blast

lemma sem_LitE:
  assumes "sem (Lit l # re) b s t"
  obtains r t' where "s = l @ r" "sem re (b \<and> l = []) r t'" "t = map C l @ t'"
  using assms by (simp only: sem.simps) blast

lemma rmatch_complete: "sem re b s t \<Longrightarrow> rmatch re b s \<noteq> None"
proof (induction re b s arbitrary: t rule: rmatch.induct)
  case (1 b s)
  then show ?case by simp
next
  case (2 l re b s)
  from 2(2) obtain r t' where r: "s = l @ r" "sem re (b \<and> l = []) r t'"
    by (rule sem_LitE)
  then have "prefix l s" "sem re (b \<and> l = []) (drop (length l) s) t'" by simp_all
  from 2(1)[OF this] r show ?case by simp
next
  case (3 cs re b)
  from 3(2) obtain w r t' where "[] = w @ r" "sem re (b \<and> w = []) r t'"
    by (rule sem_StarE)
  then have "sem re b [] t'" by simp
  from 3(1)[OF this] show ?case by simp
next
  case (4 cs re b x xs)
  from 4(4) obtain w r t' where
    w: "x # xs = w @ r" "\<forall>c \<in> set w. cmatch cs c" "sem re (b \<and> w = []) r t'"
    by (rule sem_StarE)
  show ?case
  proof (cases w)
    case Nil
    with w have s: "sem re b (x # xs) t'" by simp
    show ?thesis
    proof (cases "cmatch cs x")
      case True
      show ?thesis
      proof (cases "rmatch (Star cs # re) False xs")
        case None
        from 4(2)[OF True None s] True None show ?thesis by simp
      next
        case (Some a)
        with True show ?thesis by simp
      qed
    next
      case False
      from 4(3)[OF False s] False show ?thesis by simp
    qed
  next
    case (Cons y w')
    with w have c: "cmatch cs x" and xs: "xs = w' @ r" and a: "\<forall>c \<in> set w'. cmatch cs c"
      and s: "sem re False r t'" by simp_all
    have "sem (Star cs # re) False xs (map C w' @ t')"
    proof (cases w')
      case Nil
      with xs s show ?thesis
        by (intro sem_StarI[where w = "[]" and r = r and t' = t']) simp_all
    next
      case (Cons z w'')
      with xs s a show ?thesis
        by (intro sem_StarI[where w = w' and r = r and t' = t']) simp_all
    qed
    from 4(1)[OF c this] c show ?thesis by auto
  qed
next
  case (5 cs re b)
  from 5 show ?case by (elim sem_PlusE) simp
next
  case (6 cs re b x xs)
  from 6(2) obtain w r t' where
    w: "x # xs = w @ r" "w \<noteq> []" "\<forall>c \<in> set w. cmatch cs c" "sem re False r t'"
    by (rule sem_PlusE)
  then obtain w' where w': "w = x # w'" by (cases w) auto
  with w have c: "cmatch cs x" and xs: "xs = w' @ r" and a: "\<forall>c \<in> set w'. cmatch cs c" by simp_all
  have "sem (Star cs # re) False xs (map C w' @ t')"
  proof (cases w')
    case Nil
    with xs w show ?thesis
      by (intro sem_StarI[where w = "[]" and r = r and t' = t']) simp_all
  next
    case (Cons z w'')
    with xs w a show ?thesis
      by (intro sem_StarI[where w = w' and r = r and t' = t']) simp_all
  qed
  from 6(1)[OF c this] c show ?case by auto
next
  case (7 cs re b)
  from 7 show ?case by (elim sem_PlusLazyE) simp
next
  case (8 cs re b x xs)
  from 8(3) obtain w r t' where
    w: "x # xs = w @ r" "w \<noteq> []" "\<forall>c \<in> set w. cmatch cs c" "sem re False r t'"
    by (rule sem_PlusLazyE)
  then obtain w' where w': "w = x # w'" by (cases w) auto
  with w have c: "cmatch cs x" and xs: "xs = w' @ r" and a: "\<forall>c \<in> set w'. cmatch cs c" by simp_all
  show ?case
  proof (cases "rmatch re False xs")
    case (Some a)
    with c show ?thesis by simp
  next
    case None
    have "w' \<noteq> []"
    proof
      assume "w' = []"
      with xs w have "sem re False xs t'" by simp
      from 8(1)[OF c this] None show False by simp
    qed
    with xs w a have "sem (PlusLazy cs # re) False xs (map C w' @ t')"
      by (intro sem_PlusLazyI[where w = w' and r = r and t' = t']) simp_all
    from 8(2)[OF c None this] c None show ?thesis by auto
  qed
next
  case (9 cs re b)
  from 9(2) obtain w r t' where "[] = w @ r" "sem re (b \<and> w = []) r t'"
    by (rule sem_OptE)
  then have "sem re b [] t'" by simp
  from 9(1)[OF this] show ?case by simp
next
  case (10 cs re b x xs)
  from 10(4) obtain w r t' where
    w: "x # xs = w @ r" "length w \<le> 1" "\<forall>c \<in> set w. cmatch cs c" "sem re (b \<and> w = []) r t'"
    by (rule sem_OptE)
  show ?case
  proof (cases w)
    case Nil
    with w have s: "sem re b (x # xs) t'" by simp
    show ?thesis
    proof (cases "cmatch cs x")
      case True
      show ?thesis
      proof (cases "rmatch re False xs")
        case None
        from 10(2)[OF True None s] True None show ?thesis by simp
      next
        case (Some a)
        with True show ?thesis by simp
      qed
    next
      case False
      from 10(3)[OF False s] False show ?thesis by simp
    qed
  next
    case (Cons y w')
    with w have c: "cmatch cs x" and xs: "xs = r" and s: "sem re False r t'" by simp_all
    from s xs have "sem re False xs t'" by simp
    from 10(1)[OF c this] c show ?thesis by auto
  qed
next
  case (11 n re b s)
  then show ?case by auto
next
  case (12 n re b s)
  then show ?case by auto
next
  case (13 re b s)
  then show ?case by auto
next
  case (14 re b s)
  then show ?case by auto
qed



lemma sem_OpenE:
  assumes "sem (Open n # re) b s t"
  obtains t' where "sem re b s t'" "t = GOpen n # t'"
  using assms by auto

lemma sem_CloseE:
  assumes "sem (Close n # re) b s t"
  obtains t' where "sem re b s t'" "t = GClose n # t'"
  using assms by auto

lemma sem_BolE:
  assumes "sem (Bol # re) b s t"
  obtains "b" "sem re b s t"
  using assms by auto

lemma sem_EolE:
  assumes "sem (Eol # re) b s t"
  obtains "s = [] \<or> s = [newline]" "sem re b s t"
  using assms by auto

lemma sem_NilE:
  assumes "sem [] b s t"
  obtains "t = []"
  using assms by auto

lemmas sem_elims = sem_LitE sem_StarE sem_PlusE sem_PlusLazyE sem_OptE sem_OpenE sem_CloseE sem_BolE sem_EolE sem_NilE

lemma sem_WARN_E:
  assumes "sem ANTI_TAMPERING_WARN_RE True s m"
  obtains tv w1 w2 suf w3 mv e where
    "s = ''['' @ tv @ '']'' @ w1 @ ''-'' @ w2 @ ''['' @ ''ANTI_TAMPERING_'' @ suf @ '']'' @ w3 @ mv @ e"
    "m = map C ''['' @ GOpen ''ts'' # map C tv @ GClose ''ts'' # map C '']'' @ map C w1 @
         map C ''-'' @ map C w2 @ map C ''['' @ GOpen ''tag'' # map C ''ANTI_TAMPERING_'' @
         map C suf @ GClose ''tag'' # map C '']'' @ map C w3 @ GOpen ''msg'' # map C mv @
         [GClose ''msg'']"
    "tv \<noteq> []" "\<forall>c\<in>set tv. cmatch (NotCls [Ch CHR '']'']) c"
    "\<forall>c\<in>set w1. cmatch (Cls [WhiteSpace]) c"
    "\<forall>c\<in>set w2. cmatch (Cls [WhiteSpace]) c"
    "suf \<noteq> []"
    "\<forall>c\<in>set suf. cmatch (Cls [Range CHR ''A'' CHR ''Z'', Ch CHR ''_'']) c"
    "\<forall>c\<in>set w3. cmatch (Cls [WhiteSpace]) c"
    "\<forall>c\<in>set mv. cmatch Dot c"
    "e = [] \<or> e = [newline]"
  using assms unfolding ANTI_TAMPERING_WARN_RE_def
  apply (elim sem_elims)
  apply hypsubst
  subgoal premises prems
    by (rule that) (rule prems)+
  done





lemma grab_map_C: "grab n (map C w @ t) = w @ grab n t"
  by (induction w) simp_all

lemma group_map_C: "group (map C w @ t) n = group t n"
  by (induction w) simp_all

lemma is_space_newline: "is_space newline"
  by (simp add: is_space_def newline_def code_def)


lemma WARN_groups:
  assumes "re_match ANTI_TAMPERING_WARN_RE s = Some m"
  obtains tv suf mv where
    "group m ''ts'' = Some tv" "group m ''tag'' = Some (''ANTI_TAMPERING_'' @ suf)"
    "group m ''msg'' = Some mv"
proof -
  from assms have "sem ANTI_TAMPERING_WARN_RE True s m"
    by (simp add: re_match_def rmatch_sound)
  then obtain tv w1 w2 suf w3 mv e where
    m: "m = map C ''['' @ GOpen ''ts'' # map C tv @ GClose ''ts'' # map C '']'' @ map C w1 @
         map C ''-'' @ map C w2 @ map C ''['' @ GOpen ''tag'' # map C ''ANTI_TAMPERING_'' @
         map C suf @ GClose ''tag'' # map C '']'' @ map C w3 @ GOpen ''msg'' # map C mv @
         [GClose ''msg'']"
    by (rule sem_WARN_E)
  have "group m ''ts'' = Some tv"
    unfolding m by (simp only: group_map_C group.simps grab_map_C grab.simps) simp
  moreover have "group m ''tag'' = Some (''ANTI_TAMPERING_'' @ suf)"
    unfolding m by (simp only: group_map_C group.simps grab_map_C grab.simps) simp
  moreover have "group m ''msg'' = Some mv"
    unfolding m by (simp only: group_map_C group.simps grab_map_C grab.simps) simp
  ultimately show thesis by (rule that)
qed





lemma strip_id:
  assumes "s \<noteq> []" "\<not> is_space (hd s)" "\<not> is_space (last s)"
  shows "strip s = s"
proof -
  from assms have l: "lstrip s = s" by (cases s) (simp_all add: lstrip_def)
  from assms have "rev s \<noteq> []" "\<not> is_space (hd (rev s))" by (simp_all add: hd_rev)
  then have "dropWhile is_space (rev s) = rev s" by (cases "rev s") simp_all
  then have "rstrip s = s" by (simp add: rstrip_def)
  with l show ?thesis by (simp add: strip_def)
qed





lemma sem_LitI: "sem re (b \<and> l = []) r t' \<Longrightarrow> sem (Lit l # re) b (l @ r) (map C l @ t')"
  by auto

lemma sem_StarI2:
  "\<forall>c\<in>set w. cmatch cs c \<Longrightarrow> sem re (b \<and> w = []) r t' \<Longrightarrow> sem (Star cs # re) b (w @ r) (map C w @ t')"
  by (rule sem_StarI[where w = w and r = r and t' = t']) simp_all

lemma sem_PlusI2:
  "w \<noteq> [] \<Longrightarrow> \<forall>c\<in>set w. cmatch cs c \<Longrightarrow> sem re False r t' \<Longrightarrow> sem (Plus cs # re) b (w @ r) (map C w @ t')"
  by (rule sem_PlusI[where w = w and r = r and t' = t']) simp_all

lemma sem_OpenI: "sem re b s t' \<Longrightarrow> sem (Open n # re) b s (GOpen n # t')"
  by simp

lemma sem_CloseI: "sem re b s t' \<Longrightarrow> sem (Close n # re) b s (GClose n # t')"
  by simp

lemma sem_BolI: "b \<Longrightarrow> sem re b s t \<Longrightarrow> sem (Bol # re) b s t"
  by simp

lemma sem_EolNilI: "sem re b [] t \<Longrightarrow> sem (Eol # re) b [] t"
  by simp

lemma sem_NilI: "sem [] b s []"
  by simp

lemma cmatch_upper: "cmatch (Cls [Range CHR ''A'' CHR ''Z'', Ch CHR ''_'']) c = (is_upper c \<or> c = CHR ''_'')"
  by (simp add: is_upper_def code_def)

lemma tag_grammar_match:
  assumes "tag_grammar s"
  shows "re_match ANTI_TAMPERING_WARN_RE s \<noteq> None"
proof -
  from assms obtain tv w1 w2 suf w3 mv where
    s0: "s = ''['' @ tv @ '']'' @ w1 @ ''-'' @ w2 @ ''['' @ ''ANTI_TAMPERING_'' @ suf @ '']'' @ w3 @ mv"
    and g: "tv \<noteq> []" "CHR '']'' \<notin> set tv" "\<forall>c\<in>set w1. is_space c" "\<forall>c\<in>set w2. is_space c"
      "suf \<noteq> []" "\<forall>c\<in>set suf. is_upper c \<or> c = CHR ''_''" "\<forall>c\<in>set w3. is_space c"
      "newline \<notin> set mv"
    unfolding tag_grammar_def by blast
  have s: "s = ''['' @ tv @ '']'' @ w1 @ ''-'' @ w2 @ ''['' @ ''ANTI_TAMPERING_'' @ suf @ '']'' @ w3 @ mv @ []"
    unfolding s0 by simp
  have f2: "\<forall>c\<in>set tv. cmatch (NotCls [Ch CHR '']'']) c" using g(2) by auto
  have f3: "\<forall>c\<in>set w1. cmatch (Cls [WhiteSpace]) c" using g(3) by simp
  have f4: "\<forall>c\<in>set w2. cmatch (Cls [WhiteSpace]) c" using g(4) by simp
  have f6: "\<forall>c\<in>set suf. cmatch (Cls [Range CHR ''A'' CHR ''Z'', Ch CHR ''_'']) c"
    using g(6) unfolding cmatch_upper .
  have f7: "\<forall>c\<in>set w3. cmatch (Cls [WhiteSpace]) c" using g(7) by simp
  have f8: "\<forall>c\<in>set mv. cmatch Dot c" using g(8) by auto
  have "\<exists>t. sem ANTI_TAMPERING_WARN_RE True s t"
    unfolding s ANTI_TAMPERING_WARN_RE_def
    apply (rule exI)
    apply (rule sem_BolI, rule TrueI)
    apply (rule sem_LitI, rule sem_OpenI, rule sem_PlusI2[OF g(1) f2], rule sem_CloseI)
    apply (rule sem_LitI, rule sem_StarI2[OF f3], rule sem_LitI, rule sem_StarI2[OF f4])
    apply (rule sem_LitI, rule sem_OpenI, rule sem_LitI, rule sem_PlusI2[OF g(5) f6], rule sem_CloseI)
    apply (rule sem_LitI, rule sem_StarI2[OF f7], rule sem_OpenI, rule sem_StarI2[OF f8])
    apply (rule sem_CloseI, rule sem_EolNilI, rule sem_NilI)
    done
  then obtain t where "sem ANTI_TAMPERING_WARN_RE True s t" ..
  from rmatch_complete[OF this] show ?thesis by (simp add: re_match_def)
qed

lemma match_tag_grammar:
  assumes "re_match ANTI_TAMPERING_WARN_RE s = Some m" and "s = [] \<or> last s \<noteq> newline"
  shows "tag_grammar s"
proof -
  from assms have "sem ANTI_TAMPERING_WARN_RE True s m"
    by (simp add: re_match_def rmatch_sound)
  then obtain tv w1 w2 suf w3 mv e where
    s: "s = ''['' @ tv @ '']'' @ w1 @ ''-'' @ w2 @ ''['' @ ''ANTI_TAMPERING_'' @ suf @ '']'' @ w3 @ mv @ e"
    and f: "tv \<noteq> []" "\<forall>c\<in>set tv. cmatch (NotCls [Ch CHR '']'']) c"
      "\<forall>c\<in>set w1. cmatch (Cls [WhiteSpace]) c" "\<forall>c\<in>set w2. cmatch (Cls [WhiteSpace]) c"
      "suf \<noteq> []" "\<forall>c\<in>set suf. cmatch (Cls [Range CHR ''A'' CHR ''Z'', Ch CHR ''_'']) c"
      "\<forall>c\<in>set w3. cmatch (Cls [WhiteSpace]) c" "\<forall>c\<in>set mv. cmatch Dot c"
    and e: "e = [] \<or> e = [newline]"
    by (rule sem_WARN_E)
  have "e = []"
  proof (rule ccontr)
    assume "e \<noteq> []"
    with e have "e = [newline]" by simp
    with s have "last s = newline" by simp
    with assms(2) s show False by simp
  qed
  with s have s': "s = ''['' @ tv @ '']'' @ w1 @ ''-'' @ w2 @ ''['' @ ''ANTI_TAMPERING_'' @ suf @ '']'' @ w3 @ mv"
    by simp
  have g2: "CHR '']'' \<notin> set tv" using f(2) by auto
  have g3: "\<forall>c\<in>set w1. is_space c" using f(3) by simp
  have g4: "\<forall>c\<in>set w2. is_space c" using f(4) by simp
  have g6: "\<forall>c\<in>set suf. is_upper c \<or> c = CHR ''_''" using f(6) unfolding cmatch_upper .
  have g7: "\<forall>c\<in>set w3. is_space c" using f(7) by simp
  have g8: "newline \<notin> set mv" using f(8) by auto
  show ?thesis unfolding tag_grammar_def
    apply (rule exI[of _ tv], rule exI[of _ w1], rule exI[of _ w2], rule exI[of _ suf],
           rule exI[of _ w3], rule exI[of _ mv])
    apply (intro conjI)
    apply (rule s', rule f(1), rule g2, rule g3, rule g4, rule f(5), rule g6, rule g7, rule g8)
    done
qed

lemma rstrip_last: "rstrip s = [] \<or> \<not> is_space (last (rstrip s))"
proof (cases "dropWhile is_space (rev s)")
  case Nil
  then show ?thesis by (simp add: rstrip_def)
next
  case (Cons a list)
  then have "\<not> is_space (hd (dropWhile is_space (rev s)))"
    using hd_dropWhile[of is_space "rev s"] by simp
  with Cons show ?thesis by (simp add: rstrip_def last_rev)
qed

lemma rstrip_prefix: "\<exists>z. s = rstrip s @ z"
proof -
  have "s = rev (takeWhile is_space (rev s) @ dropWhile is_space (rev s))"
    by (simp only: takeWhile_dropWhile_id rev_rev_ident)
  then have "s = rstrip s @ rev (takeWhile is_space (rev s))"
    by (simp only: rev_append rstrip_def)
  then show ?thesis ..
qed

lemma strip_ends: "strip s = [] \<or> (\<not> is_space (hd (strip s)) \<and> \<not> is_space (last (strip s)))"
proof (cases "strip s = []")
  case True
  then show ?thesis by simp
next
  case False
  let ?l = "lstrip s"
  from False have ne: "?l \<noteq> []" by (auto simp: strip_def rstrip_def)
  then have h: "\<not> is_space (hd ?l)" unfolding lstrip_def by (rule hd_dropWhile)
  obtain z where z: "?l = rstrip ?l @ z" using rstrip_prefix by blast
  from False have "rstrip ?l \<noteq> []" by (simp add: strip_def)
  with z have "hd ?l = hd (rstrip ?l)" by (metis hd_append2)
  with h have "\<not> is_space (hd (strip s))" by (simp add: strip_def)
  moreover from rstrip_last[of ?l] False have "\<not> is_space (last (strip s))"
    by (simp add: strip_def)
  ultimately show ?thesis by simp
qed

lemma strip_strip: "strip (strip s) = strip s"
proof (cases "strip s = []")
  case True
  have "strip [] = []" by (simp add: strip_def lstrip_def rstrip_def)
  with True show ?thesis by simp
next
  case False
  with strip_ends[of s] show ?thesis by (simp add: strip_id)
qed

lemma strip_no_newline: "strip s = [] \<or> last (strip s) \<noteq> newline"
  using strip_ends[of s] is_space_newline by auto

lemma event_fields:
  "ts (event t g sev msg) = t" "tag (event t g sev msg) = g"
  "severity (event t g sev msg) = sev" "message (event t g sev msg) = msg"
  "path (event t g sev msg) = None" "hash_path (event t g sev msg) = None"
  "size_field (event t g sev msg) = None" "verify_fd (event t g sev msg) = None"
  "stored (event t g sev msg) = None" "computed (event t g sev msg) = None"
  "raw (event t g sev msg) = None"
  by (simp_all add: event_def)

lemma generic_event_fields:
  "ts (generic_event t g sev msg line) = t" "tag (generic_event t g sev msg line) = g"
  "severity (generic_event t g sev msg line) = sev"
  "message (generic_event t g sev msg line) = msg"
  "path (generic_event t g sev msg line) = None"
  "hash_path (generic_event t g sev msg line) = None"
  "size_field (generic_event t g sev msg line) = None"
  "verify_fd (generic_event t g sev msg line) = None"
  "stored (generic_event t g sev msg line) = None"
  "computed (generic_event t g sev msg line) = None"
  "raw (generic_event t g sev msg line) = Some (rstrip_newline line)"
  by (simp_all add: generic_event_def event_def)

lemma open_fd_or_generic_fields:
  "ts (open_fd_or_generic t g sev msg line) = t"
  "tag (open_fd_or_generic t g sev msg line) = g"
  "severity (open_fd_or_generic t g sev msg line) = sev"
  "message (open_fd_or_generic t g sev msg line) = msg"
  "hash_path (open_fd_or_generic t g sev msg line) = None"
  "size_field (open_fd_or_generic t g sev msg line) = None"
  "verify_fd (open_fd_or_generic t g sev msg line) = None"
  "stored (open_fd_or_generic t g sev msg line) = None"
  "computed (open_fd_or_generic t g sev msg line) = None"
  "raw (open_fd_or_generic t g sev msg line) = Some (rstrip_newline line)"
  by (simp_all add: open_fd_or_generic_def generic_event_fields event_fields split: sum.split)

lemma missing_hash_or_later_fields:
  "ts (missing_hash_or_later t g sev msg line) = t"
  "tag (missing_hash_or_later t g sev msg line) = g"
  "severity (missing_hash_or_later t g sev msg line) = sev"
  "message (missing_hash_or_later t g sev msg line) = msg"
  "size_field (missing_hash_or_later t g sev msg line) = None"
  "verify_fd (missing_hash_or_later t g sev msg line) = None"
  "stored (missing_hash_or_later t g sev msg line) = None"
  "computed (missing_hash_or_later t g sev msg line) = None"
  "raw (missing_hash_or_later t g sev msg line) = Some (rstrip_newline line)"
  by (simp_all add: missing_hash_or_later_def open_fd_or_generic_fields event_fields
      split: sum.split prod.split)

lemma mismatch_event_fields:
  assumes "mismatch_event t g msg line mm = Inr ev"
  shows "ts ev = t" "tag ev = g" "severity ev = ''danger''" "message ev = msg"
    "path ev = group mm ''path''" "hash_path ev = None"
    "stored ev = group mm ''stored''" "computed ev = group mm ''computed''"
    "raw ev = Some (rstrip_newline line)"
    "int_of_group (group mm ''size'') = Inr sz \<Longrightarrow> size_field ev = Some sz"
    "int_of_group (group mm ''verify_fd'') = Inr fd \<Longrightarrow> verify_fd ev = Some fd"
  using assms
  by (auto simp: mismatch_event_def then_do_def event_def split: sum.splits)

text \<open>What a line that is not filtered out went through.\<close>

lemma parse_line_SomeE:
  assumes "parse_line line = Inr (Some ev)"
  obtains m t g msg0 where
    "re_match ANTI_TAMPERING_WARN_RE (strip line) = Some m"
    "group m ''ts'' = Some t" "group m ''tag'' = Some g" "group m ''msg'' = Some msg0"
    "(\<exists>mm. re_search MISMATCH_RE (strip msg0) = Some mm
           \<and> mismatch_event t g (strip msg0) line mm = Inr ev)
     \<or> (re_search MISMATCH_RE (strip msg0) = None
        \<and> ev = missing_hash_or_later t g ''warning'' (strip msg0) line)"
  using assms
  by (auto simp: parse_line_def then_do_def Let_def split: option.splits sum.splits)

lemma rstrip_newline_decomp: "\<exists>k. s = rstrip_newline s @ replicate k newline"
proof -
  let ?t = "takeWhile (\<lambda>c. c = newline) (rev s)"
  have "s = rev (?t @ dropWhile (\<lambda>c. c = newline) (rev s))"
    by (simp only: takeWhile_dropWhile_id rev_rev_ident)
  then have 1: "s = rstrip_newline s @ rev ?t"
    by (simp only: rev_append rstrip_newline_def)
  have "\<forall>c\<in>set (rev ?t). c = newline" by (auto dest: set_takeWhileD)
  then have "rev ?t = replicate (length (rev ?t)) newline"
    by (intro replicate_length_same[symmetric]) simp
  with 1 have "s = rstrip_newline s @ replicate (length (rev ?t)) newline" by simp
  then show ?thesis ..
qed

lemma rstrip_newline_last: "rstrip_newline s = [] \<or> last (rstrip_newline s) \<noteq> newline"
proof (cases "dropWhile (\<lambda>c. c = newline) (rev s)")
  case Nil
  then show ?thesis by (simp add: rstrip_newline_def)
next
  case (Cons a list)
  then have "hd (dropWhile (\<lambda>c. c = newline) (rev s)) \<noteq> newline"
    using hd_dropWhile[of "\<lambda>c. c = newline" "rev s"] by simp
  with Cons show ?thesis by (simp add: rstrip_newline_def last_rev)
qed

lemma parse_line_message:
  assumes "parse_line line = Inr (Some ev)"
  obtains m msg0 where "re_match ANTI_TAMPERING_WARN_RE (strip line) = Some m"
    "group m ''msg'' = Some msg0" "message ev = strip msg0"
    "(severity ev = ''danger'' \<and> re_search MISMATCH_RE (strip msg0) \<noteq> None)
     \<or> (severity ev = ''warning'' \<and> re_search MISMATCH_RE (strip msg0) = None)"
    "raw ev = Some (rstrip_newline line)"
proof -
  from assms obtain m t g msg0 where
    1: "re_match ANTI_TAMPERING_WARN_RE (strip line) = Some m" "group m ''msg'' = Some msg0"
    and 2: "(\<exists>mm. re_search MISMATCH_RE (strip msg0) = Some mm
           \<and> mismatch_event t g (strip msg0) line mm = Inr ev)
     \<or> (re_search MISMATCH_RE (strip msg0) = None
        \<and> ev = missing_hash_or_later t g ''warning'' (strip msg0) line)"
    by (rule parse_line_SomeE)
  from 2 have "message ev = strip msg0 \<and> raw ev = Some (rstrip_newline line)
     \<and> ((severity ev = ''danger'' \<and> re_search MISMATCH_RE (strip msg0) \<noteq> None)
     \<or> (severity ev = ''warning'' \<and> re_search MISMATCH_RE (strip msg0) = None))"
  proof
    assume "\<exists>mm. re_search MISMATCH_RE (strip msg0) = Some mm
           \<and> mismatch_event t g (strip msg0) line mm = Inr ev"
    then obtain mm where "re_search MISMATCH_RE (strip msg0) = Some mm"
      "mismatch_event t g (strip msg0) line mm = Inr ev" by blast
    then show ?thesis by (simp add: mismatch_event_fields)
  next
    assume "re_search MISMATCH_RE (strip msg0) = None
        \<and> ev = missing_hash_or_later t g ''warning'' (strip msg0) line"
    then show ?thesis by (simp add: missing_hash_or_later_fields)
  qed
  with 1 show thesis by (intro that[of m msg0]) simp_all
qed

lemma header_of_None: "(header_of line = None) = (re_match ANTI_TAMPERING_WARN_RE (strip line) = None)"
proof (cases "re_match ANTI_TAMPERING_WARN_RE (strip line)")
  case None
  then show ?thesis by (simp add: header_of_def)
next
  case (Some m)
  then obtain tv suf mv where "group m ''ts'' = Some tv"
    "group m ''tag'' = Some (''ANTI_TAMPERING_'' @ suf)" "group m ''msg'' = Some mv"
    by (rule WARN_groups)
  with Some show ?thesis by (simp add: header_of_def)
qed

lemma header_of_tag_grammar: "(header_of line \<noteq> None) = tag_grammar (strip line)"
proof
  assume "header_of line \<noteq> None"
  then obtain m where "re_match ANTI_TAMPERING_WARN_RE (strip line) = Some m"
    by (auto simp: header_of_None)
  then show "tag_grammar (strip line)"
    using strip_no_newline[of line] by (rule match_tag_grammar)
next
  assume "tag_grammar (strip line)"
  then have "re_match ANTI_TAMPERING_WARN_RE (strip line) \<noteq> None" by (rule tag_grammar_match)
  then show "header_of line \<noteq> None" by (simp add: header_of_None)
qed

lemma parse_line_header_None: "header_of line = None \<Longrightarrow> parse_line line = Inr None"
  by (simp add: header_of_None parse_line_def)

lemma parse_line_header_Some:
  assumes "header_of line = Some (t, g, msg)"
  shows "parse_line line =
     (case re_search MISMATCH_RE msg of
        Some mm \<Rightarrow> then_do (mismatch_event t g msg line mm) (\<lambda>ev. Inr (Some ev))
      | None \<Rightarrow> Inr (Some (missing_hash_or_later t g ''warning'' msg line)))"
  using assms
  by (auto simp: header_of_def parse_line_def Let_def split: option.splits)


lemma find_first_Some:
  "find_first sep s = Some (a, b) \<Longrightarrow> s = a @ sep @ b"
proof (induction s arbitrary: a)
  case Nil
  then show ?case by (simp split: if_splits)
next
  case (Cons x xs)
  show ?case
  proof (cases "prefix sep (x # xs)")
    case True
    with Cons.prems have "a = []" "b = drop (length sep) (x # xs)" by simp_all
    moreover from True obtain z where "x # xs = sep @ z" by (auto simp: prefix_def)
    ultimately show ?thesis by simp
  next
    case False
    with Cons.prems obtain a' where "find_first sep xs = Some (a', b)" "a = x # a'"
      by (auto split: option.splits)
    with Cons.IH[of a'] show ?thesis by simp
  qed
qed

lemma py_in_prefix: "prefix sep s \<Longrightarrow> py_in sep s"
  by (cases s) simp_all

lemma py_in_append: "py_in sep (a @ sep @ b)"
  by (induction a) (simp_all add: py_in_prefix)

lemma py_in_suffix: "py_in sep s \<Longrightarrow> py_in sep (a @ s)"
proof (induction a)
  case Nil
  then show ?case by simp
next
  case (Cons x a)
  then show ?case by simp
qed

lemma contains_then_append:
  assumes "py_in m2 part"
  shows "contains_then m1 m2 (a @ m1 @ part)"
proof (induction a)
  case Nil
  show ?case
  proof (cases "m1 @ part")
    case Nil
    with assms show ?thesis by simp
  next
    case (Cons x xs)
    have "prefix m1 (m1 @ part)" by simp
    moreover have "py_in m2 (drop (length m1) (m1 @ part))" using assms by simp
    ultimately show ?thesis using Cons by simp
  qed
next
  case (Cons x a)
  then show ?case by simp
qed

lemma find_first_single_None:
  "find_first [c] s = None \<Longrightarrow> takeWhile (\<lambda>x. x \<noteq> c) s = s"
  by (induction s) (auto split: option.splits if_splits)

lemma find_first_single_Some:
  "find_first [c] s = Some (a, b) \<Longrightarrow> takeWhile (\<lambda>x. x \<noteq> c) s = a"
  by (induction s arbitrary: a) (auto split: option.splits if_splits)

lemma split_dot_first:
  "then_do (split1 ''.'' rest) (\<lambda>l3. then_do (index l3 0) (\<lambda>fp. Inr (hp, strip fp)))
     = Inr (hp, strip (takeWhile (\<lambda>c. c \<noteq> CHR ''.'') rest))"
proof (cases "find_first ''.'' rest")
  case None
  then show ?thesis
    by (simp add: split1_def then_do_def index_def find_first_single_None)
next
  case (Some p)
  then obtain a b where "find_first ''.'' rest = Some (a, b)" by (cases p) auto
  then show ?thesis
    by (simp add: split1_def then_do_def index_def find_first_single_Some)
qed

text \<open>When the first \<open>try\<close> block succeeds, and what it yields.\<close>

lemma missing_hash_fields_Inr:
  "(missing_hash_fields msg = Inr (hp, fp)) =
     (\<exists>a part rest. find_first ''Hash file '' msg = Some (a, part)
        \<and> find_first '' does not exist for file '' part = Some (hp, rest)
        \<and> fp = strip (takeWhile (\<lambda>c. c \<noteq> CHR ''.'') rest))"
proof (cases "find_first ''Hash file '' msg")
  case None
  then show ?thesis
    by (simp add: missing_hash_fields_def split1_def then_do_def index_def)
next
  case (Some p)
  then obtain a part where 1: "find_first ''Hash file '' msg = Some (a, part)" by (cases p) auto
  show ?thesis
  proof (cases "find_first '' does not exist for file '' part")
    case None
    with 1 show ?thesis
      by (simp add: missing_hash_fields_def split1_def then_do_def index_def)
  next
    case (Some q)
    then obtain hp' rest where 2: "find_first '' does not exist for file '' part = Some (hp', rest)"
      by (cases q) auto
    have "missing_hash_fields msg =
        then_do (split1 ''.'' rest) (\<lambda>l3. then_do (index l3 0) (\<lambda>fp. Inr (hp', strip fp)))"
      using 1 2 by (simp add: missing_hash_fields_def split1_def then_do_def index_def)
    then have "missing_hash_fields msg = Inr (hp', strip (takeWhile (\<lambda>c. c \<noteq> CHR ''.'') rest))"
      by (simp only: split_dot_first)
    with 1 2 show ?thesis by auto
  qed
qed

lemma py_in_find_first:
  "py_in sep s \<Longrightarrow> sep \<noteq> [] \<Longrightarrow> find_first sep s \<noteq> None"
  by (induction s) (auto split: option.splits)

lemma drop_append_short: "n \<le> length xs \<Longrightarrow> drop n (xs @ ys) = drop n xs @ ys"
  by simp

lemma contains_then_find_first:
  assumes "contains_then m1 m2 s" "m1 \<noteq> []"
  shows "\<exists>a part. find_first m1 s = Some (a, part) \<and> py_in m2 part"
  using assms
proof (induction s)
  case Nil
  then show ?case by simp
next
  case (Cons x xs)
  show ?case
  proof (cases "prefix m1 (x # xs)")
    case True
    have "py_in m2 (drop (length m1) (x # xs))"
    proof (cases "py_in m2 (drop (length m1) (x # xs))")
      case True
      then show ?thesis .
    next
      case False
      with Cons.prems have "contains_then m1 m2 xs" by simp
      from Cons.IH[OF this Cons.prems(2)] obtain a part where
        f: "find_first m1 xs = Some (a, part)" and p: "py_in m2 part" by blast
      from find_first_Some[OF f] have xs: "x # xs = (x # a @ m1) @ part" by simp
      have "length m1 \<le> length (x # a @ m1)" by simp
      then have "drop (length m1) ((x # a @ m1) @ part) = drop (length m1) (x # a @ m1) @ part"
        by (rule drop_append_short)
      with xs p show ?thesis by (simp only: py_in_suffix)
    qed
    with True show ?thesis by simp
  next
    case False
    with Cons.prems have "contains_then m1 m2 xs" by simp
    from Cons.IH[OF this Cons.prems(2)] obtain a part where
      "find_first m1 xs = Some (a, part)" "py_in m2 part" by blast
    with False show ?thesis by simp
  qed
qed

text \<open>The first \<open>try\<close> block succeeds exactly on the messages of the missing-hash-file shape.\<close>

lemma missing_hash_shape_iff:
  "missing_hash_shape msg =
     (\<exists>a part hp rest. find_first ''Hash file '' msg = Some (a, part)
        \<and> find_first '' does not exist for file '' part = Some (hp, rest))"
proof
  assume "missing_hash_shape msg"
  then obtain a part where 1: "find_first ''Hash file '' msg = Some (a, part)"
    and "py_in '' does not exist for file '' part"
    unfolding missing_hash_shape_def by (blast dest: contains_then_find_first)
  then have "find_first '' does not exist for file '' part \<noteq> None"
    by (intro py_in_find_first) simp_all
  with 1 show "\<exists>a part hp rest. find_first ''Hash file '' msg = Some (a, part)
        \<and> find_first '' does not exist for file '' part = Some (hp, rest)" by auto
next
  assume "\<exists>a part hp rest. find_first ''Hash file '' msg = Some (a, part)
        \<and> find_first '' does not exist for file '' part = Some (hp, rest)"
  then obtain a part hp rest where 1: "find_first ''Hash file '' msg = Some (a, part)"
    and 2: "find_first '' does not exist for file '' part = Some (hp, rest)" by blast
  from find_first_Some[OF 2] have "py_in '' does not exist for file '' part"
    using py_in_append[of "'' does not exist for file ''" hp rest] by simp
  then have "contains_then ''Hash file '' '' does not exist for file '' (a @ ''Hash file '' @ part)"
    by (rule contains_then_append)
  with find_first_Some[OF 1] show "missing_hash_shape msg"
    by (simp add: missing_hash_shape_def)
qed

lemma missing_hash_or_later_no_shape:
  assumes "\<not> missing_hash_shape msg" "\<not> open_fd_shape msg"
  shows "missing_hash_or_later t g sev msg line = generic_event t g sev msg line"
proof -
  have "\<And>hp fp. missing_hash_fields msg \<noteq> Inr (hp, fp)"
    using assms(1) unfolding missing_hash_shape_iff missing_hash_fields_Inr by blast
  then have "open_fd_or_generic t g sev msg line = missing_hash_or_later t g sev msg line"
    by (auto simp: missing_hash_or_later_def split: sum.splits)
  moreover from assms(2) have "open_fd_or_generic t g sev msg line = generic_event t g sev msg line"
    by (simp add: open_fd_or_generic_def open_fd_shape_def)
  ultimately show ?thesis by simp
qed

lemma missing_hash_or_later_shape:
  assumes "find_first ''Hash file '' msg = Some (a, part)"
    "find_first '' does not exist for file '' part = Some (hp, rest)"
  shows "missing_hash_or_later t g sev msg line =
     (event t g sev msg)\<lparr>path := Some (strip (takeWhile (\<lambda>c. c \<noteq> CHR ''.'') rest)),
                          hash_path := Some (strip hp), raw := Some (rstrip_newline line)\<rparr>"
proof -
  from assms have f: "missing_hash_fields msg = Inr (hp, strip (takeWhile (\<lambda>c. c \<noteq> CHR ''.'') rest))"
    unfolding missing_hash_fields_Inr by blast
  from find_first_Some[OF assms(1)] have 1: "py_in ''Hash file '' msg"
    using py_in_append[of "''Hash file ''" a part] by simp
  from find_first_Some[OF assms(2)] have "py_in '' does not exist for file '' part"
    using py_in_append[of "'' does not exist for file ''" hp rest] by simp
  then have "py_in '' does not exist for file '' ((a @ ''Hash file '') @ part)"
    by (rule py_in_suffix)
  with find_first_Some[OF assms(1)] have 2: "py_in '' does not exist for file '' msg" by simp
  from 1 2 f show ?thesis by (simp add: missing_hash_or_later_def)
qed

text \<open>
  C10: every event that \<open>parse_line\<close> returns keeps the original line in \<open>raw\<close>, less
  its trailing newline characters only (leading whitespace stays), and its \<open>message\<close>
  is the \<open>msg\<close> group stripped of surrounding whitespace; this covers the generic event.
\<close>

theorem parse_line_raw_and_message:
  assumes "parse_line line = Inr (Some ev)"
  shows "\<exists>r k m msg0. raw ev = Some r \<and> r = rstrip_newline line
           \<and> line = r @ replicate k newline \<and> (r = [] \<or> last r \<noteq> newline)
           \<and> re_match ANTI_TAMPERING_WARN_RE (strip line) = Some m
           \<and> group m ''msg'' = Some msg0 \<and> message ev = strip msg0
           \<and> strip (message ev) = message ev"
proof -
  from assms obtain m msg0 where
    1: "re_match ANTI_TAMPERING_WARN_RE (strip line) = Some m" "group m ''msg'' = Some msg0"
      "message ev = strip msg0" "raw ev = Some (rstrip_newline line)"
    by (rule parse_line_message)
  obtain k where k: "line = rstrip_newline line @ replicate k newline"
    using rstrip_newline_decomp by blast
  from 1(3) have "strip (message ev) = message ev" by (simp add: strip_strip)
  with 1 k rstrip_newline_last[of line] show ?thesis by blast
qed

theorem parse_line_raw_and_message_witness:
  "parse_line (''  [t] - [ANTI_TAMPERING_X]   hello  '' @ [newline, newline]) =
     Inr (Some \<lparr>ts = ''t'', tag = ''ANTI_TAMPERING_X'', severity = ''warning'',
                 message = ''hello'', path = None, hash_path = None, size_field = None,
                 verify_fd = None, stored = None, computed = None,
                 raw = Some ''  [t] - [ANTI_TAMPERING_X]   hello  ''\<rparr>)
   \<and> (\<exists>k. ''  [t] - [ANTI_TAMPERING_X]   hello  '' @ [newline, newline]
            = ''  [t] - [ANTI_TAMPERING_X]   hello  '' @ replicate k newline)
   \<and> strip ''hello'' = ''hello''"
proof -
  let ?L = "''  [t] - [ANTI_TAMPERING_X]   hello  '' @ [newline, newline]"
  let ?E = "\<lparr>ts = ''t'', tag = ''ANTI_TAMPERING_X'', severity = ''warning'',
                 message = ''hello'', path = None, hash_path = None, size_field = None,
                 verify_fd = None, stored = None, computed = None,
                 raw = Some ''  [t] - [ANTI_TAMPERING_X]   hello  ''\<rparr>"
  have h: "parse_line ?L = Inr (Some ?E)" by code_simp
  from parse_line_raw_and_message[OF h] obtain r k where
    r: "raw ?E = Some r" "?L = r @ replicate k newline" and s: "strip (message ?E) = message ?E"
    by blast
  have "raw ?E = Some ''  [t] - [ANTI_TAMPERING_X]   hello  ''" by simp
  with r(1) have "r = ''  [t] - [ANTI_TAMPERING_X]   hello  ''" by (simp only: option.inject)
  with r(2) have 1: "\<exists>k. ?L = ''  [t] - [ANTI_TAMPERING_X]   hello  '' @ replicate k newline"
    by blast
  have "message ?E = ''hello''" by simp
  with s have 2: "strip ''hello'' = ''hello''" by (simp only:)
  from h 1 2 show ?thesis by (intro conjI)
qed

text \<open>
  C3: an event returned by \<open>parse_line\<close> has severity \<open>danger\<close> exactly when its
  message matched the hash-mismatch pattern; every other event has severity \<open>warning\<close>.
\<close>

theorem severity_danger_iff_mismatch:
  assumes "parse_line line = Inr (Some ev)"
  shows "(severity ev = ''danger'') = (re_search MISMATCH_RE (message ev) \<noteq> None)
         \<and> (severity ev \<noteq> ''danger'' \<longrightarrow> severity ev = ''warning'')"
proof -
  from assms obtain m msg0 where
    "message ev = strip msg0"
    "(severity ev = ''danger'' \<and> re_search MISMATCH_RE (strip msg0) \<noteq> None)
     \<or> (severity ev = ''warning'' \<and> re_search MISMATCH_RE (strip msg0) = None)"
    by (rule parse_line_message)
  then show ?thesis by auto
qed

theorem severity_danger_iff_mismatch_witness:
  "parse_line ''[t] - [ANTI_TAMPERING_X] Failed to open verification fd for file /a/b'' =
     Inr (Some \<lparr>ts = ''t'', tag = ''ANTI_TAMPERING_X'', severity = ''warning'',
                 message = ''Failed to open verification fd for file /a/b'',
                 path = Some ''/a/b'', hash_path = None, size_field = None,
                 verify_fd = None, stored = None, computed = None,
                 raw = Some ''[t] - [ANTI_TAMPERING_X] Failed to open verification fd for file /a/b''\<rparr>)
   \<and> re_search MISMATCH_RE ''Failed to open verification fd for file /a/b'' = None"
proof -
  let ?L = "''[t] - [ANTI_TAMPERING_X] Failed to open verification fd for file /a/b''"
  let ?E = "\<lparr>ts = ''t'', tag = ''ANTI_TAMPERING_X'', severity = ''warning'',
                 message = ''Failed to open verification fd for file /a/b'',
                 path = Some ''/a/b'', hash_path = None, size_field = None,
                 verify_fd = None, stored = None, computed = None,
                 raw = Some ''[t] - [ANTI_TAMPERING_X] Failed to open verification fd for file /a/b''\<rparr>"
  have h: "parse_line ?L = Inr (Some ?E)" by code_simp
  from severity_danger_iff_mismatch[OF h]
  have "re_search MISMATCH_RE (message ?E) = None" by simp
  with h show ?thesis by simp
qed

text \<open>
  C2: a line whose stripped text is not in the tag grammar (a bracketed timestamp, the
  separator, a bracketed tag of the family, then the message) is filtered out:
  \<open>parse_line\<close> returns \<open>None\<close>.
\<close>

theorem parse_line_not_tag_grammar:
  assumes "\<not> tag_grammar (strip line)"
  shows "parse_line line = Inr None"
proof -
  from assms have "header_of line = None" using header_of_tag_grammar[of line] by blast
  then show ?thesis by (rule parse_line_header_None)
qed

theorem parse_line_not_tag_grammar_witness:
  "\<not> tag_grammar (strip ''[t] - [OTHER_TAG] hello'')
   \<and> parse_line ''[t] - [OTHER_TAG] hello'' = Inr None"
proof -
  have "header_of ''[t] - [OTHER_TAG] hello'' = None" by code_simp
  then have h: "\<not> tag_grammar (strip ''[t] - [OTHER_TAG] hello'')"
    using header_of_tag_grammar[of "''[t] - [OTHER_TAG] hello''"] by simp
  from h parse_line_not_tag_grammar[OF h] show ?thesis by (rule conjI)
qed





text \<open>
  C4, as stated, fails: the event of a line that matches the tag grammar and no shape
  has \<open>raw\<close> set, not absent.  Here the line is \<open>[t] - [ANTI_TAMPERING_X] hello\<close>.
\<close>

theorem generic_event_raw_counterexample:
  "header_of ''[t] - [ANTI_TAMPERING_X] hello'' = Some (''t'', ''ANTI_TAMPERING_X'', ''hello'')
   \<and> \<not> mismatch_shape ''hello'' \<and> \<not> missing_hash_shape ''hello'' \<and> \<not> open_fd_shape ''hello''
   \<and> parse_line ''[t] - [ANTI_TAMPERING_X] hello'' =
       Inr (Some \<lparr>ts = ''t'', tag = ''ANTI_TAMPERING_X'', severity = ''warning'',
                   message = ''hello'', path = None, hash_path = None, size_field = None,
                   verify_fd = None, stored = None, computed = None,
                   raw = Some ''[t] - [ANTI_TAMPERING_X] hello''\<rparr>)
   \<and> Some ''[t] - [ANTI_TAMPERING_X] hello'' \<noteq> (None :: string option)"
  by code_simp

text \<open>
  C4, amended: for a line that matches the tag grammar and whose message has none of
  the three shapes, \<open>parse_line\<close> returns an event of severity \<open>warning\<close> with
  \<open>path\<close>, \<open>hash_path\<close>, \<open>size\<close>, \<open>verify_fd\<close>, \<open>stored\<close> and \<open>computed\<close>
  absent, and with \<open>raw\<close> the line less its trailing newline characters.
\<close>

theorem parse_line_generic_event:
  assumes "header_of line = Some (t, g, msg)"
    and "\<not> mismatch_shape msg" and "\<not> missing_hash_shape msg" and "\<not> open_fd_shape msg"
  shows "parse_line line =
     Inr (Some \<lparr>ts = t, tag = g, severity = ''warning'', message = msg, path = None,
                 hash_path = None, size_field = None, verify_fd = None, stored = None,
                 computed = None, raw = Some (rstrip_newline line)\<rparr>)"
proof -
  from assms(2) have "re_search MISMATCH_RE msg = None" by (simp add: mismatch_shape_def)
  with assms(1) have "parse_line line = Inr (Some (missing_hash_or_later t g ''warning'' msg line))"
    by (simp add: parse_line_header_Some)
  also have "missing_hash_or_later t g ''warning'' msg line = generic_event t g ''warning'' msg line"
    using assms(3,4) by (rule missing_hash_or_later_no_shape)
  finally show ?thesis by (simp add: generic_event_def event_def)
qed

theorem parse_line_generic_event_witness:
  "header_of ''[t] - [ANTI_TAMPERING_X] a does not exist for file Hash file x''
     = Some (''t'', ''ANTI_TAMPERING_X'', ''a does not exist for file Hash file x'')
   \<and> \<not> mismatch_shape ''a does not exist for file Hash file x''
   \<and> \<not> missing_hash_shape ''a does not exist for file Hash file x''
   \<and> \<not> open_fd_shape ''a does not exist for file Hash file x''
   \<and> parse_line ''[t] - [ANTI_TAMPERING_X] a does not exist for file Hash file x'' =
       Inr (Some \<lparr>ts = ''t'', tag = ''ANTI_TAMPERING_X'', severity = ''warning'',
                   message = ''a does not exist for file Hash file x'', path = None,
                   hash_path = None, size_field = None, verify_fd = None, stored = None,
                   computed = None,
                   raw = Some (rstrip_newline
                     ''[t] - [ANTI_TAMPERING_X] a does not exist for file Hash file x'')\<rparr>)"
proof -
  let ?L = "''[t] - [ANTI_TAMPERING_X] a does not exist for file Hash file x''"
  let ?M = "''a does not exist for file Hash file x''"
  have 1: "header_of ?L = Some (''t'', ''ANTI_TAMPERING_X'', ?M)" by code_simp
  have 2: "\<not> mismatch_shape ?M" by code_simp
  have 3: "\<not> missing_hash_shape ?M" by code_simp
  have 4: "\<not> open_fd_shape ?M" by code_simp
  from 1 2 3 4 parse_line_generic_event[OF 1 2 3 4] show ?thesis by (intro conjI)
qed

text \<open>
  C6, as stated, fails: \<open>hash_path\<close> is not the text between the two markers but that
  text stripped of surrounding whitespace.  Here the line has two blanks after
  \<open>Hash file\<close>, so the text between the markers begins with a blank.
\<close>

theorem missing_hash_path_counterexample:
  "header_of ''[t] - [ANTI_TAMPERING_X] Hash file  /h.sha does not exist for file /p/file.v2.txt''
     = Some (''t'', ''ANTI_TAMPERING_X'',
             ''Hash file  /h.sha does not exist for file /p/file.v2.txt'')
   \<and> \<not> mismatch_shape ''Hash file  /h.sha does not exist for file /p/file.v2.txt''
   \<and> find_first ''Hash file '' ''Hash file  /h.sha does not exist for file /p/file.v2.txt''
       = Some ([], '' /h.sha does not exist for file /p/file.v2.txt'')
   \<and> find_first '' does not exist for file '' '' /h.sha does not exist for file /p/file.v2.txt''
       = Some ('' /h.sha'', ''/p/file.v2.txt'')
   \<and> parse_line ''[t] - [ANTI_TAMPERING_X] Hash file  /h.sha does not exist for file /p/file.v2.txt''
       = Inr (Some \<lparr>ts = ''t'', tag = ''ANTI_TAMPERING_X'', severity = ''warning'',
                   message = ''Hash file  /h.sha does not exist for file /p/file.v2.txt'',
                   path = Some ''/p/file'', hash_path = Some ''/h.sha'', size_field = None,
                   verify_fd = None, stored = None, computed = None,
                   raw = Some ''[t] - [ANTI_TAMPERING_X] Hash file  /h.sha does not exist for file /p/file.v2.txt''\<rparr>)
   \<and> ''/h.sha'' \<noteq> '' /h.sha''"
  by code_simp

text \<open>
  C6, amended: for a line that matches the tag grammar and whose message has the
  missing-hash-file shape and not the hash-mismatch shape, the message splits at the
  first \<open>Hash file\<close> marker and then at the first \<open>does not exist for file\<close> marker;
  \<open>hash_path\<close> is the text between the two markers stripped of surrounding
  whitespace, \<open>path\<close> is the text after the second marker up to its first period (all
  of it when there is none), stripped as well, and the severity is \<open>warning\<close>.
\<close>

theorem parse_line_missing_hash_file:
  assumes "header_of line = Some (t, g, msg)"
    and "\<not> mismatch_shape msg" and "missing_hash_shape msg"
  shows "\<exists>a part hp rest.
           find_first ''Hash file '' msg = Some (a, part)
         \<and> find_first '' does not exist for file '' part = Some (hp, rest)
         \<and> msg = a @ ''Hash file '' @ hp @ '' does not exist for file '' @ rest
         \<and> parse_line line =
             Inr (Some \<lparr>ts = t, tag = g, severity = ''warning'', message = msg,
                         path = Some (strip (takeWhile (\<lambda>c. c \<noteq> CHR ''.'') rest)),
                         hash_path = Some (strip hp), size_field = None, verify_fd = None,
                         stored = None, computed = None,
                         raw = Some (rstrip_newline line)\<rparr>)"
proof -
  from assms(3) obtain a part hp rest where
    1: "find_first ''Hash file '' msg = Some (a, part)"
    and 2: "find_first '' does not exist for file '' part = Some (hp, rest)"
    unfolding missing_hash_shape_iff by blast
  from find_first_Some[OF 1] find_first_Some[OF 2]
  have 3: "msg = a @ ''Hash file '' @ hp @ '' does not exist for file '' @ rest" by simp
  from assms(2) have "re_search MISMATCH_RE msg = None" by (simp add: mismatch_shape_def)
  with assms(1) have "parse_line line = Inr (Some (missing_hash_or_later t g ''warning'' msg line))"
    by (simp add: parse_line_header_Some)
  then have 4: "parse_line line =
             Inr (Some \<lparr>ts = t, tag = g, severity = ''warning'', message = msg,
                         path = Some (strip (takeWhile (\<lambda>c. c \<noteq> CHR ''.'') rest)),
                         hash_path = Some (strip hp), size_field = None, verify_fd = None,
                         stored = None, computed = None,
                         raw = Some (rstrip_newline line)\<rparr>)"
    by (simp add: missing_hash_or_later_shape[OF 1 2] event_def)
  from 1 2 3 4 show ?thesis by blast
qed

theorem parse_line_missing_hash_file_witness:
  "header_of ''[t] - [ANTI_TAMPERING_X] Hash file /h.sha does not exist for file /p/file.v2.txt. Skipping''
     = Some (''t'', ''ANTI_TAMPERING_X'',
             ''Hash file /h.sha does not exist for file /p/file.v2.txt. Skipping'')
   \<and> \<not> mismatch_shape ''Hash file /h.sha does not exist for file /p/file.v2.txt. Skipping''
   \<and> missing_hash_shape ''Hash file /h.sha does not exist for file /p/file.v2.txt. Skipping''
   \<and> parse_line ''[t] - [ANTI_TAMPERING_X] Hash file /h.sha does not exist for file /p/file.v2.txt. Skipping''
       = Inr (Some \<lparr>ts = ''t'', tag = ''ANTI_TAMPERING_X'', severity = ''warning'',
                   message = ''Hash file /h.sha does not exist for file /p/file.v2.txt. Skipping'',
                   path = Some ''/p/file'', hash_path = Some ''/h.sha'', size_field = None,
                   verify_fd = None, stored = None, computed = None,
                   raw = Some ''[t] - [ANTI_TAMPERING_X] Hash file /h.sha does not exist for file /p/file.v2.txt. Skipping''\<rparr>)"
proof -
  let ?L = "''[t] - [ANTI_TAMPERING_X] Hash file /h.sha does not exist for file /p/file.v2.txt. Skipping''"
  let ?M = "''Hash file /h.sha does not exist for file /p/file.v2.txt. Skipping''"
  let ?E = "\<lparr>ts = ''t'', tag = ''ANTI_TAMPERING_X'', severity = ''warning'',
                   message = ?M,
                   path = Some ''/p/file'', hash_path = Some ''/h.sha'', size_field = None,
                   verify_fd = None, stored = None, computed = None,
                   raw = Some ?L\<rparr>"
  have 1: "header_of ?L = Some (''t'', ''ANTI_TAMPERING_X'', ?M)" by code_simp
  have 2: "\<not> mismatch_shape ?M" by code_simp
  have 3: "missing_hash_shape ?M" by code_simp
  from parse_line_missing_hash_file[OF 1 2 3] obtain ev where
    e: "parse_line ?L = Inr (Some ev)" by blast
  have "parse_line ?L = Inr (Some ?E)" by code_simp
  with e have "ev = ?E" by (simp only: sum.inject option.inject)
  with e have 4: "parse_line ?L = Inr (Some ?E)" by (simp only:)
  from 1 2 3 4 show ?thesis by (intro conjI)
qed

section \<open>The event bus: properties\<close>

lemma full_nonempty: "full q \<Longrightarrow> items q \<noteq> []"
  by (auto simp: full_def)

lemma publish_one_deliver: "publish_one q payload = Inr (deliver q payload)"
proof (cases "full q")
  case False
  then show ?thesis by (simp add: publish_one_def put_nowait_def deliver_def)
next
  case True
  then obtain x xs where xs: "items q = x # xs" using full_nonempty by (cases "items q") auto
  with True show ?thesis
    by (simp add: publish_one_def put_nowait_def get_nowait_def deliver_def)
qed

lemma publish_to_distinct:
  "distinct subs \<Longrightarrow>
   publish_to subs payload st = Inr (\<lambda>h. if h \<in> set subs then deliver (st h) payload else st h)"
proof (induction subs arbitrary: st)
  case Nil
  then show ?case by simp
next
  case (Cons q subs)
  then have "publish_to subs payload (st(q := deliver (st q) payload)) =
      Inr (\<lambda>h. if h \<in> set subs then deliver ((st(q := deliver (st q) payload)) h) payload
                else (st(q := deliver (st q) payload)) h)"
    by simp
  with Cons.prems show ?case by (auto simp: publish_one_deliver intro!: ext)
qed

lemma publish_result:
  assumes "finite (subscribers bus)"
  shows "publish bus payload =
     Inr (bus\<lparr>store := (\<lambda>h. if h \<in> subscribers bus then deliver (store bus h) payload
                              else store bus h)\<rparr>)"
proof -
  have "distinct (sorted_list_of_set (subscribers bus))" by simp
  from publish_to_distinct[OF this] assms show ?thesis
    by (simp add: publish_def)
qed

lemma subseq_snoc: "subseq xs ys \<Longrightarrow> subseq xs (ys @ [y])"
  by (rule list_emb_prefix)

lemma deliver_subseq: "subseq (items (deliver q p)) (items q @ [p])"
proof -
  have 1: "subseq (tl (items q)) (items q)"
    by (cases "items q") (auto intro: list_emb_Cons)
  then have 2: "subseq (tl (items q)) (items q @ [p])" by (rule subseq_snoc)
  from 1 have 3: "subseq (tl (items q) @ [p]) (items q @ [p])"
    by (simp add: list_emb_append_mono)
  from 2 3 show ?thesis by (simp add: deliver_def)
qed

lemma deliver_maxsize: "maxsize (deliver q p) = maxsize q"
  by (simp add: deliver_def)

lemma publish_all_result:
  assumes "finite (subscribers bus)"
  shows "\<exists>busn. publish_all bus ps = Inr busn \<and> subscribers busn = subscribers bus
           \<and> (\<forall>h\<in>subscribers bus. subseq (items (store busn h)) (items (store bus h) @ ps))"
  using assms
proof (induction ps arbitrary: bus)
  case Nil
  then show ?case by simp
next
  case (Cons p ps)
  let ?b = "bus\<lparr>store := (\<lambda>h. if h \<in> subscribers bus then deliver (store bus h) p
                              else store bus h)\<rparr>"
  from Cons.prems have p: "publish bus p = Inr ?b" by (rule publish_result)
  have "finite (subscribers ?b)" using Cons.prems by simp
  from Cons.IH[OF this] obtain busn where
    n: "publish_all ?b ps = Inr busn" "subscribers busn = subscribers ?b"
    "\<forall>h\<in>subscribers ?b. subseq (items (store busn h)) (items (store ?b h) @ ps)"
    by blast
  have "\<forall>h\<in>subscribers bus. subseq (items (store busn h)) (items (store bus h) @ p # ps)"
  proof
    fix h assume h: "h \<in> subscribers bus"
    with n(3) have 1: "subseq (items (store busn h)) (items (deliver (store bus h) p) @ ps)"
      by simp
    have "subseq (items (deliver (store bus h) p) @ ps) ((items (store bus h) @ [p]) @ ps)"
      using deliver_subseq by (intro list_emb_append_mono) simp_all
    with 1 have "subseq (items (store busn h)) ((items (store bus h) @ [p]) @ ps)"
      by (rule subseq_order.order_trans)
    then show "subseq (items (store busn h)) (items (store bus h) @ p # ps)" by simp
  qed
  with p n(1,2) show ?case by simp
qed

text \<open>
  C7: \<open>publish\<close> never raises and treats every subscriber of the snapshot on its own:
  a queue with room gets the payload appended; a full queue loses exactly its oldest
  item and then gets the payload, unless the second \<open>put_nowait\<close> fails too, in which
  case the payload is dropped for that queue only; queues outside the registry are not
  touched.  Over any sequence of publications a queue holds a subsequence of its old
  items followed by the payloads, in the order of publication.
\<close>

theorem publish_per_subscriber:
  assumes "finite (subscribers bus)"
  shows "(\<exists>bus'. publish bus payload = Inr bus' \<and> subscribers bus' = subscribers bus
            \<and> (\<forall>h. h \<notin> subscribers bus \<longrightarrow> store bus' h = store bus h)
            \<and> (\<forall>h\<in>subscribers bus.
                  store bus' h = deliver (store bus h) payload
                \<and> maxsize (store bus' h) = maxsize (store bus h)
                \<and> (\<not> full (store bus h) \<longrightarrow>
                     items (store bus' h) = items (store bus h) @ [payload])
                \<and> (full (store bus h) \<longrightarrow>
                     items (store bus' h) = tl (items (store bus h)) @ [payload]
                   \<or> items (store bus' h) = tl (items (store bus h)))
                \<and> (full (store bus h) \<and> int (length (items (store bus h))) = maxsize (store bus h)
                     \<longrightarrow> items (store bus' h) = tl (items (store bus h)) @ [payload])))
       \<and> (\<forall>ps. \<exists>busn. publish_all bus ps = Inr busn \<and> subscribers busn = subscribers bus
            \<and> (\<forall>h\<in>subscribers bus.
                  subseq (items (store busn h)) (items (store bus h) @ ps)))"
proof
  let ?b = "bus\<lparr>store := (\<lambda>h. if h \<in> subscribers bus then deliver (store bus h) payload
                              else store bus h)\<rparr>"
  from assms have p: "publish bus payload = Inr ?b" by (rule publish_result)
  have "\<forall>h\<in>subscribers bus.
                  store ?b h = deliver (store bus h) payload
                \<and> maxsize (store ?b h) = maxsize (store bus h)
                \<and> (\<not> full (store bus h) \<longrightarrow>
                     items (store ?b h) = items (store bus h) @ [payload])
                \<and> (full (store bus h) \<longrightarrow>
                     items (store ?b h) = tl (items (store bus h)) @ [payload]
                   \<or> items (store ?b h) = tl (items (store bus h)))
                \<and> (full (store bus h) \<and> int (length (items (store bus h))) = maxsize (store bus h)
                     \<longrightarrow> items (store ?b h) = tl (items (store bus h)) @ [payload])"
  proof
    fix h assume h: "h \<in> subscribers bus"
    have "full (store bus h) \<and> int (length (items (store bus h))) = maxsize (store bus h)
            \<longrightarrow> \<not> full ((store bus h)\<lparr>items := tl (items (store bus h))\<rparr>)"
      by (auto simp: full_def)
    with h show "store ?b h = deliver (store bus h) payload
                \<and> maxsize (store ?b h) = maxsize (store bus h)
                \<and> (\<not> full (store bus h) \<longrightarrow>
                     items (store ?b h) = items (store bus h) @ [payload])
                \<and> (full (store bus h) \<longrightarrow>
                     items (store ?b h) = tl (items (store bus h)) @ [payload]
                   \<or> items (store ?b h) = tl (items (store bus h)))
                \<and> (full (store bus h) \<and> int (length (items (store bus h))) = maxsize (store bus h)
                     \<longrightarrow> items (store ?b h) = tl (items (store bus h)) @ [payload])"
      by (simp add: deliver_def)
  qed
  with p show "\<exists>bus'. publish bus payload = Inr bus' \<and> subscribers bus' = subscribers bus
            \<and> (\<forall>h. h \<notin> subscribers bus \<longrightarrow> store bus' h = store bus h)
            \<and> (\<forall>h\<in>subscribers bus.
                  store bus' h = deliver (store bus h) payload
                \<and> maxsize (store bus' h) = maxsize (store bus h)
                \<and> (\<not> full (store bus h) \<longrightarrow>
                     items (store bus' h) = items (store bus h) @ [payload])
                \<and> (full (store bus h) \<longrightarrow>
                     items (store bus' h) = tl (items (store bus h)) @ [payload]
                   \<or> items (store bus' h) = tl (items (store bus h)))
                \<and> (full (store bus h) \<and> int (length (items (store bus h))) = maxsize (store bus h)
                     \<longrightarrow> items (store bus' h) = tl (items (store bus h)) @ [payload]))"
    by (intro exI[of _ ?b]) simp
next
  show "\<forall>ps. \<exists>busn. publish_all bus ps = Inr busn \<and> subscribers busn = subscribers bus
            \<and> (\<forall>h\<in>subscribers bus.
                  subseq (items (store busn h)) (items (store bus h) @ ps))"
    using publish_all_result[OF assms] by blast
qed

theorem publish_per_subscriber_witness:
  "finite {0, 1 :: handle}
   \<and> (\<exists>bus'. publish \<lparr>subscribers = {0, 1},
                         store = (\<lambda>h. if h = 0 then \<lparr>items = [''a'', ''b''], maxsize = 2\<rparr>
                                       else \<lparr>items = [''a''], maxsize = 2\<rparr>),
                         fresh = 3\<rparr> ''c'' = Inr bus'
        \<and> items (store bus' 0) = [''b'', ''c'']
        \<and> items (store bus' 1) = [''a'', ''c'']
        \<and> items (store bus' 2) = [''a''])"
proof -
  let ?B = "\<lparr>subscribers = {0, 1 :: handle},
             store = (\<lambda>h. if h = 0 then \<lparr>items = [''a'', ''b''], maxsize = 2\<rparr>
                           else \<lparr>items = [''a''], maxsize = 2\<rparr>),
             fresh = 3 :: handle\<rparr>"
  have f: "finite (subscribers ?B)" by simp
  from publish_per_subscriber[OF f, of "''c''"] obtain bus' where
    p: "publish ?B ''c'' = Inr bus'"
    and o: "\<forall>h. h \<notin> subscribers ?B \<longrightarrow> store bus' h = store ?B h"
    and d: "\<forall>h\<in>subscribers ?B. store bus' h = deliver (store ?B h) ''c''"
    by blast
  from d have "store bus' 0 = deliver (store ?B 0) ''c''" by simp
  then have 0: "items (store bus' 0) = [''b'', ''c'']" by (simp add: deliver_def full_def)
  from d have "store bus' 1 = deliver (store ?B 1) ''c''" by simp
  then have 1: "items (store bus' 1) = [''a'', ''c'']" by (simp add: deliver_def full_def)
  from o have "store bus' 2 = store ?B 2" by simp
  then have 2: "items (store bus' 2) = [''a'']" by simp
  from p 0 1 2 have "\<exists>bus'. publish ?B ''c'' = Inr bus'
        \<and> items (store bus' 0) = [''b'', ''c'']
        \<and> items (store bus' 1) = [''a'', ''c'']
        \<and> items (store bus' 2) = [''a'']" by blast
  then show ?thesis by simp
qed

text \<open>
  C8: \<open>unsubscribe\<close> of a handle that is not in the registry changes nothing and
  raises nothing, and a second \<open>unsubscribe\<close> of the same handle changes nothing.
\<close>

theorem unsubscribe_idempotent:
  "(q \<notin> subscribers bus \<longrightarrow> unsubscribe bus q = bus)
   \<and> unsubscribe (unsubscribe bus q) q = unsubscribe bus q"
  by (simp add: unsubscribe_def)

theorem unsubscribe_idempotent_witness:
  "(5 :: handle) \<notin> {0, 1}
   \<and> unsubscribe \<lparr>subscribers = {0, 1}, store = (\<lambda>h. \<lparr>items = [], maxsize = 500\<rparr>), fresh = 2\<rparr> 5
       = \<lparr>subscribers = {0, 1}, store = (\<lambda>h. \<lparr>items = [], maxsize = 500\<rparr>), fresh = 2\<rparr>
   \<and> unsubscribe (unsubscribe \<lparr>subscribers = {0, 1}, store = (\<lambda>h. \<lparr>items = [], maxsize = 500\<rparr>), fresh = 2\<rparr> 5) 5
       = unsubscribe \<lparr>subscribers = {0, 1}, store = (\<lambda>h. \<lparr>items = [], maxsize = 500\<rparr>), fresh = 2\<rparr> 5"
proof -
  let ?B = "\<lparr>subscribers = {0, 1 :: handle}, store = (\<lambda>h. \<lparr>items = [], maxsize = 500\<rparr>),
             fresh = 2 :: handle\<rparr>"
  have h: "(5 :: handle) \<notin> subscribers ?B" by simp
  from unsubscribe_idempotent[of 5 ?B] h
  have "unsubscribe ?B 5 = ?B" "unsubscribe (unsubscribe ?B 5) 5 = unsubscribe ?B 5"
    by blast+
  moreover have "(5 :: handle) \<notin> {0, 1}" by simp
  ultimately show ?thesis by (intro conjI)
qed

section \<open>The file tailer: properties\<close>







end
